theory Spec2Isabelle
  imports Main
begin

section \<open>The cross-reference processor of pydoc-markdown\<close>

text \<open>
  A shallow embedding of \<^verbatim>\<open>pydoc_markdown/contrib/processors/crossref.py\<close>:
  the regular expression of \<^verbatim>\<open>_preprocess_refs\<close>, its \<^verbatim>\<open>handler\<close>, the
  substitution loop of \<^verbatim>\<open>re.sub\<close>, and \<^verbatim>\<open>process\<close> with the depth-first
  visit of the modules.

  Docstring text is a \<open>string\<close>; one \<open>char\<close> stands for one code point of the Python
  \<^verbatim>\<open>str\<close>, so the model covers texts whose code points are below 256.
  An exception raised by a resolver is a value \<open>Inl e\<close>; the engine raises none of its own.
  A visit with an arbitrary function need not end: it is a partial function, whose value
  \<open>None\<close> is a run that does not return.
\<close>

subsection \<open>Character classes of the pattern\<close>

text \<open>
  \<^verbatim>\<open>\w\<close> of Python's \<^verbatim>\<open>re\<close> on a \<^verbatim>\<open>str\<close> pattern: the alphanumeric code points
  and the underscore. Below 256 these are the ASCII letters and digits, \<^verbatim>\<open>_\<close>, and the
  Latin-1 letters and numeric signs listed here.
\<close>

definition is_word :: "char \<Rightarrow> bool" where
  "is_word c =
     (let n = (of_char c :: nat) in
        (48 \<le> n \<and> n \<le> 57) \<or> (65 \<le> n \<and> n \<le> 90) \<or> n = 95 \<or> (97 \<le> n \<and> n \<le> 122)
        \<or> n = 170 \<or> n = 178 \<or> n = 179 \<or> n = 181 \<or> n = 185 \<or> n = 186
        \<or> n = 188 \<or> n = 189 \<or> n = 190
        \<or> (192 \<le> n \<and> n \<le> 214) \<or> (216 \<le> n \<and> n \<le> 246) \<or> (248 \<le> n \<and> n \<le> 255))"

text \<open>The class \<^verbatim>\<open>[\w\d\._]\<close>: \<^verbatim>\<open>\d\<close> and \<^verbatim>\<open>_\<close> are already in \<^verbatim>\<open>\w\<close>.\<close>

definition is_name_char :: "char \<Rightarrow> bool" where
  "is_name_char c = (is_word c \<or> c = CHR ''.'')"

subsection \<open>One match of the pattern\<close>

text \<open>
  The groups of a match of
  \<^verbatim>\<open>\B#(?P<ref>[\w\d\._]+)(?P<parens>\(\))?(?P<trailing>#[\w\d\._]+)?\<close>.
  A group that did not take part is \<open>None\<close>, as \<^verbatim>\<open>match.group\<close> returns it.
\<close>

record re_match =
  ref :: string
  parens :: "string option"
  trailing :: "string option"

text \<open>
  \<open>match_ref cs\<close> matches the pattern behind a \<^verbatim>\<open>#\<close> that \<^verbatim>\<open>\B\<close> accepted: \<open>cs\<close>
  is the text after that \<^verbatim>\<open>#\<close>. The result is the groups and the number of characters of
  \<open>cs\<close> the match consumed. Every part behind the name is optional and nothing follows
  it, so the greedy first attempt is the match: the longest name, then \<^verbatim>\<open>()\<close> when
  it is there, then \<^verbatim>\<open>#\<close> and the longest non-empty name when they are there.
\<close>

definition match_ref :: "string \<Rightarrow> (re_match \<times> nat) option" where
  "match_ref cs =
     (let r = takeWhile is_name_char cs; s1 = dropWhile is_name_char cs in
      if r = [] then None
      else
        let p = (if take 2 s1 = ''()'' then Some ''()'' else None);
            s2 = (if take 2 s1 = ''()'' then drop 2 s1 else s1);
            t = (case s2 of
                   [] \<Rightarrow> None
                 | h # s3 \<Rightarrow>
                     if h = CHR ''#'' \<and> takeWhile is_name_char s3 \<noteq> []
                     then Some (h # takeWhile is_name_char s3) else None)
        in Some (\<lparr>ref = r, parens = p, trailing = t\<rparr>,
                 length r + (case p of None \<Rightarrow> 0 | Some x \<Rightarrow> length x)
                          + (case t of None \<Rightarrow> 0 | Some x \<Rightarrow> length x)))"

subsection \<open>The substitution loop\<close>

text \<open>
  \<^verbatim>\<open>re.sub(pattern, handler, content)\<close>: the text is scanned from left to right; at each
  position the pattern is tried, a match is replaced by what the handler returns for it and
  the scan goes on behind the match; a character where no match starts is copied.
  \<open>prevw\<close> tells whether the character before the position, in the text as it was given,
  is a word character: \<^verbatim>\<open>\B\<close> before \<^verbatim>\<open>#\<close> (not a word character) holds exactly when it
  is not. The handler reads and updates a state \<open>'u\<close> (the dictionary of unresolved
  references) and may raise.
\<close>

fun re_sub :: "(re_match \<Rightarrow> 'u \<Rightarrow> 'e + string \<times> 'u) \<Rightarrow> bool \<Rightarrow> string \<Rightarrow> 'u \<Rightarrow> 'e + string \<times> 'u" where
  "re_sub h prevw [] u = Inr ([], u)"
| "re_sub h prevw (c # cs) u =
     (case (if c = CHR ''#'' \<and> \<not> prevw then match_ref cs else None) of
        Some (m, k) \<Rightarrow>
          (case h m u of
             Inl e \<Rightarrow> Inl e
           | Inr (out, u') \<Rightarrow>
               (case re_sub h (is_word (last (take k cs))) (drop k cs) u' of
                  Inl e \<Rightarrow> Inl e
                | Inr (out', u'') \<Rightarrow> Inr (out @ out', u'')))
      | None \<Rightarrow>
          (case re_sub h (is_word c) cs u of
             Inl e \<Rightarrow> Inl e
           | Inr (out', u') \<Rightarrow> Inr (c # out', u')))"

text \<open>
  \<^verbatim>\<open>pattern.finditer(content)\<close>: the matches the loop finds, in order, each with the text
  that follows it.
\<close>

fun finditer :: "bool \<Rightarrow> string \<Rightarrow> (re_match \<times> string) list" where
  "finditer prevw [] = []"
| "finditer prevw (c # cs) =
     (case (if c = CHR ''#'' \<and> \<not> prevw then match_ref cs else None) of
        Some (m, k) \<Rightarrow> (m, drop k cs) # finditer (is_word (last (take k cs))) (drop k cs)
      | None \<Rightarrow> finditer (is_word c) cs)"

subsection \<open>The API tree and the resolvers\<close>

text \<open>
  A \<^verbatim>\<open>docspec.ApiObject\<close>: its name, its docstring (\<^verbatim>\<open>Optional[Docstring]\<close>, of which
  the processor reads and writes \<^verbatim>\<open>content\<close>) and, for an object with members, its
  members; an object without members has the empty list.
\<close>

datatype api_object =
  ApiObject (name: string) (docstring: "string option") (members: "api_object list")

text \<open>
  What the handler holds of the node it works on: the names along \<^verbatim>\<open>node.path\<close> (from
  the root module to the node) and the node itself. A resolved target is used through
  the names along \<^verbatim>\<open>target.path\<close> only.
\<close>

type_synonym scope = "string list \<times> api_object"

type_synonym target = "string list"

text \<open>
  \<^verbatim>\<open>Resolver.resolve_ref(scope, ref)\<close> of \<^verbatim>\<open>interfaces.py\<close>: \<open>Inr None\<close> is "not
  found", \<open>Inl e\<close> is the exception \<open>e\<close> raised. A resolver is taken to be a function of
  its arguments.
\<close>

type_synonym 'e resolver = "scope \<Rightarrow> string \<Rightarrow> 'e + string option"

text \<open>
  Modelled from the spec: \<^verbatim>\<open>pydoc_markdown.util.docspec.ApiSuite\<close> and the interface
  \<^verbatim>\<open>ResolverV2\<close> are not among the sources. The specification describes the typed
  resolver as \<^verbatim>\<open>resolve(suite, scope, ref)\<close>, returning the resolved node or absent, and
  the suite as the whole tree. \<^verbatim>\<open>process\<close> builds \<^verbatim>\<open>ApiSuite(modules)\<close> anew
  for every node it visits, over the list of modules whose docstrings the run rewrites in
  place: the suite of a call is the list of modules as it is at that call.
\<close>

type_synonym api_suite = "api_object list"

type_synonym 'e resolver_v2 = "api_suite \<Rightarrow> scope \<Rightarrow> string \<Rightarrow> 'e + target option"

record 'e crossref_processor =
  resolver_v2 :: "'e resolver_v2 option"

type_synonym unresolved = "(string \<times> string list) list"

text \<open>\<^verbatim>\<open>sep.join(xs)\<close>.\<close>

fun join :: "string \<Rightarrow> string list \<Rightarrow> string" where
  "join sep [] = []"
| "join sep [x] = x"
| "join sep (x # y # ys) = x @ sep @ join sep (y # ys)"

text \<open>
  \<^verbatim>\<open>unresolved.setdefault(uid, []).append(ref)\<close> on a dictionary kept in insertion
  order: the list of an existing key grows in place, a new key goes to the end.
\<close>

fun setdefault_append :: "string \<Rightarrow> string \<Rightarrow> unresolved \<Rightarrow> unresolved" where
  "setdefault_append uid r [] = [(uid, [r])]"
| "setdefault_append uid r ((k, v) # kvs) =
     (if k = uid then (k, v @ [r]) # kvs else (k, v) # setdefault_append uid r kvs)"

subsection \<open>The handler\<close>

text \<open>\<^verbatim>\<open>match.group(g) or ""\<close>, \<^verbatim>\<open>s.lstrip("#")\<close> and \<^verbatim>\<open>s.endswith(".")\<close>.\<close>

definition group_or_empty :: "string option \<Rightarrow> string" where
  "group_or_empty g = (case g of None \<Rightarrow> [] | Some s \<Rightarrow> s)"

definition lstrip_hash :: "string \<Rightarrow> string" where
  "lstrip_hash s = dropWhile (\<lambda>c. c = CHR ''#'') s"

definition endswith_dot :: "string \<Rightarrow> bool" where
  "endswith_dot s = (s \<noteq> [] \<and> last s = CHR ''.'')"

text \<open>
  The first part of the handler (lines 98 to 109): the values of \<^verbatim>\<open>ref\<close>,
  \<^verbatim>\<open>parens\<close>, \<^verbatim>\<open>trailing\<close> and \<^verbatim>\<open>has_trailing_dot\<close> once the trailing dot is
  taken off.
\<close>

definition split_match :: "re_match \<Rightarrow> string \<times> string \<times> string \<times> bool" where
  "split_match m =
     (let r = ref m;
          p = group_or_empty (parens m);
          t = lstrip_hash (group_or_empty (trailing m))
      in if t \<noteq> [] \<and> endswith_dot t then (r, p, butlast t, True)
         else if p = [] \<and> endswith_dot r then (butlast r, p, t, True)
         else (r, p, t, False))"

text \<open>
  The resolution (lines 112 to 125), giving the value of \<^verbatim>\<open>result\<close>. \<open>dumps text\<close>
  stands for \<^verbatim>\<open>tomli_w.dumps({"text": text})\<close> of the TOML library. A configured
  \<^verbatim>\<open>resolver_v2\<close> is used instead of the resolver passed to \<^verbatim>\<open>process\<close>; an empty
  \<^verbatim>\<open>href\<close> is false in \<^verbatim>\<open>if href\<close>.
\<close>

definition resolve ::
  "(string \<Rightarrow> string) \<Rightarrow> 'e crossref_processor \<Rightarrow> scope \<Rightarrow> 'e resolver option \<Rightarrow> api_suite
     \<Rightarrow> string \<Rightarrow> string \<Rightarrow> 'e + string option" where
  "resolve dumps self node resolver suite r text =
     (case resolver_v2 self of
        Some r2 \<Rightarrow>
          (case r2 suite node r of
             Inl e \<Rightarrow> Inl e
           | Inr None \<Rightarrow> Inr None
           | Inr (Some tgt) \<Rightarrow>
               Inr (Some (''{@link pydoc:'' @ join ''.'' tgt @ '' :with '' @ dumps text @ ''}'')))
      | None \<Rightarrow>
          (case resolver of
             Some r1 \<Rightarrow>
               (case r1 node r of
                  Inl e \<Rightarrow> Inl e
                | Inr None \<Rightarrow> Inr None
                | Inr (Some href) \<Rightarrow>
                    if href \<noteq> [] then Inr (Some (''[`'' @ text @ ''`]('' @ href @ '')''))
                    else Inr None)
           | None \<Rightarrow> Inr None))"

definition handler ::
  "(string \<Rightarrow> string) \<Rightarrow> 'e crossref_processor \<Rightarrow> scope \<Rightarrow> 'e resolver option \<Rightarrow> api_suite
     \<Rightarrow> re_match \<Rightarrow> unresolved \<Rightarrow> 'e + string \<times> unresolved" where
  "handler dumps self node resolver suite m unresolved =
     (case split_match m of
        (r, p, t, has_trailing_dot) \<Rightarrow>
          (case resolve dumps self node resolver suite r (r @ p @ t) of
             Inl e \<Rightarrow> Inl e
           | Inr result \<Rightarrow>
               (let res = (case result of None \<Rightarrow> ''`'' @ r @ p @ t @ ''`'' | Some x \<Rightarrow> x);
                    u = (case result of
                           None \<Rightarrow> setdefault_append (join ''.'' (fst node)) r unresolved
                         | Some x \<Rightarrow> unresolved)
                in Inr (if has_trailing_dot then res @ ''.'' else res, u))))"

subsection \<open>Processing a node and the whole tree\<close>

text \<open>
  \<^verbatim>\<open>_preprocess_refs\<close>: nothing happens to a node without docstring; otherwise the
  content is replaced by the result of the substitution. The result is the new docstring
  of the node, the only attribute the function assigns.
\<close>

definition preprocess_refs ::
  "(string \<Rightarrow> string) \<Rightarrow> 'e crossref_processor \<Rightarrow> scope \<Rightarrow> 'e resolver option \<Rightarrow> api_suite
     \<Rightarrow> unresolved \<Rightarrow> 'e + string option \<times> unresolved" where
  "preprocess_refs dumps self node resolver suite unresolved =
     (case docstring (snd node) of
        None \<Rightarrow> Inr (None, unresolved)
      | Some content \<Rightarrow>
          (case re_sub (handler dumps self node resolver suite) False content unresolved of
             Inl e \<Rightarrow> Inl e
           | Inr (content', u) \<Rightarrow> Inr (Some content', u)))"

text \<open>
  The call \<^verbatim>\<open>self._preprocess_refs(x, resolver, ApiSuite(modules), unresolved)\<close> that the
  visit makes on an object: the object after the call, and the dictionary. The call
  assigns \<^verbatim>\<open>node.docstring.content\<close> (line 138) and no other attribute of the object.
\<close>

definition preprocess_node ::
  "(string \<Rightarrow> string) \<Rightarrow> 'e crossref_processor \<Rightarrow> 'e resolver option \<Rightarrow> api_suite \<Rightarrow> scope
     \<Rightarrow> unresolved \<Rightarrow> 'e + api_object \<times> unresolved" where
  "preprocess_node dumps self resolver suite node unresolved =
     (case preprocess_refs dumps self node resolver suite unresolved of
        Inl e \<Rightarrow> Inl e
      | Inr (d, u) \<Rightarrow> Inr (ApiObject (name (snd node)) d (members (snd node)), u))"

text \<open>
  \<^verbatim>\<open>docspec.visit(objects, func)\<close> of the docspec library: for each object in order,
  \<open>func\<close> on the object, then the visit of the members the object then has.

  The objects are mutable and shared: what \<open>func\<close> does to an object is seen by every
  later call that reads the tree. The model has no heap, so the visit carries the tree:
  \<open>ctx\<close> builds the whole list of modules from the list that is being visited, as that
  list is now, and \<open>func\<close> receives this live list of modules with the object. \<open>prefix\<close>
  holds the names of the ancestors, of which \<^verbatim>\<open>node.path\<close> is made.

  The result has two parts. The second is the outcome: the objects after the visit and
  the state, or, when \<open>func\<close> raised, the exception and the whole tree as the calls
  before left it. The first is no value of the program but a record of the run: the calls
  of \<open>func\<close> in order, each with the modules, the object and the state it received.
\<close>

type_synonym 'u call = "api_suite \<times> scope \<times> 'u"

definition with_members :: "api_object \<Rightarrow> api_object list \<Rightarrow> api_object" where
  "with_members x ms = ApiObject (name x) (docstring x) ms"

partial_function (option) visit ::
  "(api_suite \<Rightarrow> scope \<Rightarrow> 'u \<Rightarrow> 'e + api_object \<times> 'u) \<Rightarrow> (api_object list \<Rightarrow> api_suite)
     \<Rightarrow> string list \<Rightarrow> api_object list \<Rightarrow> 'u
     \<Rightarrow> ('u call list \<times> (('e \<times> api_suite) + (api_object list \<times> 'u))) option" where
  "visit func ctx prefix objects u =
     (case objects of
        [] \<Rightarrow> Some ([], Inr ([], u))
      | x # rest \<Rightarrow>
          (case func (ctx (x # rest)) (prefix @ [name x], x) u of
             Inl e \<Rightarrow>
               Some ([(ctx (x # rest), (prefix @ [name x], x), u)], Inl (e, ctx (x # rest)))
           | Inr (x', u1) \<Rightarrow>
               Option.bind
                 (visit func (\<lambda>ms. ctx (with_members x' ms # rest)) (prefix @ [name x'])
                    (members x') u1)
                 (\<lambda>r1. case snd r1 of
                    Inl err \<Rightarrow>
                      Some ((ctx (x # rest), (prefix @ [name x], x), u) # fst r1, Inl err)
                  | Inr (ms', u2) \<Rightarrow>
                      Option.bind
                        (visit func (\<lambda>rest'. ctx (with_members x' ms' # rest')) prefix rest u2)
                        (\<lambda>r2. Some ((ctx (x # rest), (prefix @ [name x], x), u) # fst r1 @ fst r2,
                                     case snd r2 of
                                       Inl err \<Rightarrow> Inl err
                                     | Inr (rest', u3) \<Rightarrow> Inr (with_members x' ms' # rest', u3))))))"

declare visit.simps [code]

text \<open>
  \<^verbatim>\<open>process\<close>. The Python function returns nothing: its effects are the rewritten
  docstrings and one warning when a reference stayed unresolved. \<open>process_run\<close> is the
  visit of the modules (lines 71 to 74), starting with the empty dictionary;
  \<open>after_visit\<close> is the rest of the function (lines 76 to 85): with the modules after the
  run and the dictionary it gives the arguments of the warning (the number of unresolved
  references and the summary) when it is logged.
\<close>

definition process_run ::
  "(string \<Rightarrow> string) \<Rightarrow> 'e crossref_processor \<Rightarrow> api_object list \<Rightarrow> 'e resolver option
     \<Rightarrow> (unresolved call list \<times> (('e \<times> api_suite) + (api_object list \<times> unresolved))) option" where
  "process_run dumps self modules resolver =
     visit (preprocess_node dumps self resolver) (\<lambda>ms. ms) [] modules []"

definition summary_line :: "string \<times> string list \<Rightarrow> string" where
  "summary_line e = ''  '' @ fst e @ '': '' @ join '', '' (snd e)"

definition after_visit ::
  "('e \<times> api_suite) + (api_object list \<times> unresolved)
     \<Rightarrow> ('e \<times> api_suite) + (api_object list \<times> unresolved \<times> (nat \<times> string) option)" where
  "after_visit outcome =
     (case outcome of
        Inl (e, ms) \<Rightarrow> Inl (e, ms)
      | Inr (ms, unresolved) \<Rightarrow>
          Inr (ms, unresolved,
               if unresolved \<noteq> []
               then Some (sum_list (map (\<lambda>e. length (snd e)) unresolved),
                          join [CHR 0x0A] (map summary_line unresolved))
               else None))"

definition process ::
  "(string \<Rightarrow> string) \<Rightarrow> 'e crossref_processor \<Rightarrow> api_object list \<Rightarrow> 'e resolver option
     \<Rightarrow> (('e \<times> api_suite) + (api_object list \<times> unresolved \<times> (nat \<times> string) option)) option" where
  "process dumps self modules resolver =
     map_option (\<lambda>r. after_visit (snd r)) (process_run dumps self modules resolver)"

section \<open>Notions used to state the properties\<close>

text \<open>
  The name the handler looks up, the text it displays and the dot it puts back, read off
  \<open>split_match\<close>; the key of the node in the dictionary of unresolved references.
\<close>

definition lookup_key :: "re_match \<Rightarrow> string" where
  "lookup_key m = fst (split_match m)"

definition display_text :: "re_match \<Rightarrow> string" where
  "display_text m = (case split_match m of (r, p, t, d) \<Rightarrow> r @ p @ t)"

definition dot_suffix :: "re_match \<Rightarrow> string" where
  "dot_suffix m = (case split_match m of (r, p, t, d) \<Rightarrow> if d then ''.'' else [])"

definition uid :: "scope \<Rightarrow> string" where
  "uid node = join ''.'' (fst node)"

text \<open>
  No configured resolver finds the name \<open>r\<close>: the typed resolver when there is one,
  else the basic resolver (an empty address counts as none), else nothing is asked.
\<close>

definition not_found ::
  "'e crossref_processor \<Rightarrow> scope \<Rightarrow> 'e resolver option \<Rightarrow> api_object list \<Rightarrow> string \<Rightarrow> bool" where
  "not_found self node resolver suite r =
     (case resolver_v2 self of
        Some r2 \<Rightarrow> r2 suite node r = Inr None
      | None \<Rightarrow>
          (case resolver of
             Some r1 \<Rightarrow> r1 node r = Inr None \<or> r1 node r = Inr (Some [])
           | None \<Rightarrow> True))"

text \<open>
  Sample resolvers for the concrete runs: a basic resolver that knows \<^verbatim>\<open>Foo\<close> only, a
  typed resolver that knows \<^verbatim>\<open>Foo\<close> only, a typed resolver that finds nothing, and the
  serialisation of \<^verbatim>\<open>{"text": t}\<close> for a text in which TOML escapes nothing.
\<close>

definition foo_resolver :: "'e resolver" where
  "foo_resolver node r = (if r = ''Foo'' then Inr (Some ''/api/foo'') else Inr None)"

definition foo_resolver_v2 :: "'e resolver_v2" where
  "foo_resolver_v2 suite node r = (if r = ''Foo'' then Inr (Some [''pkg'', ''Foo'']) else Inr None)"

definition absent_v2 :: "'e resolver_v2" where
  "absent_v2 suite node r = Inr None"

definition plain_dumps :: "string \<Rightarrow> string" where
  "plain_dumps t = ''text = '' @ [CHR 0x22] @ t @ [CHR 0x22, CHR 0x0A]"

definition mod_node :: "string \<Rightarrow> scope" where
  "mod_node doc = ([''m''], ApiObject ''m'' (Some doc) [])"

text \<open>
  The tree without the text of its docstrings: the names, the members and which nodes
  have a docstring. The tree a run leaves behind, whether it returned or raised.
\<close>

definition blank :: "string option \<Rightarrow> string option" where
  "blank d = map_option (\<lambda>content. []) d"

fun skeleton :: "api_object \<Rightarrow> api_object" where
  "skeleton (ApiObject n d ms) = ApiObject n (blank d) (map skeleton ms)"

definition tree_after :: "('e \<times> api_suite) + (api_object list \<times> 'x) \<Rightarrow> api_object list" where
  "tree_after res = (case res of Inl (e, ms) \<Rightarrow> ms | Inr (ms, x) \<Rightarrow> ms)"

text \<open>
  The nodes of a tree in depth-first order, each with the names along its path; the
  tokens of a node's docstring, in the order of the text; the parts of a call.
\<close>

function nodes :: "string list \<Rightarrow> api_object list \<Rightarrow> scope list" where
  "nodes prefix [] = []"
| "nodes prefix (ApiObject n d ms # rest) =
     (prefix @ [n], ApiObject n d ms) # nodes (prefix @ [n]) ms @ nodes prefix rest"
  by pat_completeness auto
termination
  by (relation "measure (\<lambda>(prefix, xs). size_list size xs)") auto

definition node_tokens :: "scope \<Rightarrow> re_match list" where
  "node_tokens node =
     (case docstring (snd node) of None \<Rightarrow> [] | Some content \<Rightarrow> map fst (finditer False content))"

definition call_suite :: "'u call \<Rightarrow> api_suite" where
  "call_suite c = fst c"

definition call_scope :: "'u call \<Rightarrow> scope" where
  "call_scope c = fst (snd c)"

definition call_state :: "'u call \<Rightarrow> 'u" where
  "call_state c = snd (snd c)"


text \<open>
  The entry of a key in the dictionary of unresolved references (empty when the key is
  absent), the names of a node's tokens that no resolver finds when asked with a given
  suite, and what the entry of a key is expected to hold after a run: these names, call
  by call, each call asked with the suite it received.
\<close>

definition report :: "unresolved \<Rightarrow> string \<Rightarrow> string list" where
  "report u k = (case map_of u k of None \<Rightarrow> [] | Some refs \<Rightarrow> refs)"

definition unresolved_keys ::
  "'e crossref_processor \<Rightarrow> 'e resolver option \<Rightarrow> api_object list \<Rightarrow> scope \<Rightarrow> string list" where
  "unresolved_keys self resolver suite node =
     map lookup_key
       (filter (\<lambda>m. not_found self node resolver suite (lookup_key m)) (node_tokens node))"

definition call_keys ::
  "'e crossref_processor \<Rightarrow> 'e resolver option \<Rightarrow> string \<Rightarrow> 'u call \<Rightarrow> string list" where
  "call_keys self resolver k c =
     (if uid (call_scope c) = k
      then unresolved_keys self resolver (call_suite c) (call_scope c) else [])"

definition expected_report ::
  "'e crossref_processor \<Rightarrow> 'e resolver option \<Rightarrow> 'u call list \<Rightarrow> string \<Rightarrow> string list" where
  "expected_report self resolver calls k = concat (map (call_keys self resolver k) calls)"

text \<open>
  The name looked up for a token is the \<^verbatim>\<open>ref\<close> group, or that group less the one dot
  at its end, and has none of the characters of the call suffix and of the separator.
\<close>

definition plain_key :: "re_match \<Rightarrow> bool" where
  "plain_key m =
     ((lookup_key m = ref m \<or> ref m = lookup_key m @ ''.'')
      \<and> CHR ''#'' \<notin> set (lookup_key m) \<and> CHR ''('' \<notin> set (lookup_key m)
      \<and> CHR '')'' \<notin> set (lookup_key m))"

text \<open>
  The exception a result carries, the first exception of a list of outcomes, the
  exception the configured resolver raises when asked a name in a scope with a suite, the
  first exception raised among the questions of a call (the names of the tokens of its
  node, from left to right, asked with its suite), and the first among the calls of a run.
\<close>

definition raised_exn :: "'e + 'a \<Rightarrow> 'e option" where
  "raised_exn res = (case res of Inl e \<Rightarrow> Some e | Inr x \<Rightarrow> None)"

fun first_some :: "'a option list \<Rightarrow> 'a option" where
  "first_some [] = None"
| "first_some (None # xs) = first_some xs"
| "first_some (Some x # xs) = Some x"

definition raises ::
  "'e crossref_processor \<Rightarrow> 'e resolver option \<Rightarrow> api_object list \<Rightarrow> scope \<times> string \<Rightarrow> 'e option" where
  "raises self resolver suite q =
     (case resolver_v2 self of
        Some r2 \<Rightarrow> raised_exn (r2 suite (fst q) (snd q))
      | None \<Rightarrow>
          (case resolver of
             Some r1 \<Rightarrow> raised_exn (r1 (fst q) (snd q))
           | None \<Rightarrow> None))"

definition call_raises ::
  "'e crossref_processor \<Rightarrow> 'e resolver option \<Rightarrow> 'u call \<Rightarrow> 'e option" where
  "call_raises self resolver c =
     first_some (map (\<lambda>m. raises self resolver (call_suite c) (call_scope c, lookup_key m))
                   (node_tokens (call_scope c)))"

definition first_raise ::
  "'e crossref_processor \<Rightarrow> 'e resolver option \<Rightarrow> 'u call list \<Rightarrow> 'e option" where
  "first_raise self resolver calls = first_some (map (call_raises self resolver) calls)"

definition process_raised :: "('e \<times> api_suite) + 'x \<Rightarrow> 'e option" where
  "process_raised res = map_option fst (raised_exn res)"

text \<open>
  The docstring a call leaves on its node: none when the node has none, else the result
  of \<^verbatim>\<open>re.sub\<close> with the handler of that call (the content as it was, should the
  handler raise).
\<close>

definition call_doc ::
  "(string \<Rightarrow> string) \<Rightarrow> 'e crossref_processor \<Rightarrow> 'e resolver option \<Rightarrow> unresolved call
     \<Rightarrow> string option" where
  "call_doc dumps self resolver c =
     (case docstring (snd (call_scope c)) of
        None \<Rightarrow> None
      | Some content \<Rightarrow>
          (case re_sub (handler dumps self (call_scope c) resolver (call_suite c)) False content
                  (call_state c) of
             Inl e \<Rightarrow> Some content
           | Inr (out, u) \<Rightarrow> Some out))"

text \<open>
  For the question whether a second run finds a token in the output of a first run:
  a text at whose start the pattern matches (\<^verbatim>\<open>\B\<close> put aside), the text of a match
  (\<^verbatim>\<open>match.group(0)\<close>), a match that ends in a word character and is followed at once by
  such a text, as \<^verbatim>\<open>#a#b\<close> is in \<^verbatim>\<open>#a#b#c\<close>, and a token whose link, when a
  resolver finds it, contains no match of the pattern. A substitution text is well-behaved
  when it is not empty, contains no match of the pattern, starts with no name character
  and ends neither in a word character nor in \<^verbatim>\<open>#\<close>.
\<close>

definition starts_token :: "string \<Rightarrow> bool" where
  "starts_token s = (case s of [] \<Rightarrow> False | c # cs \<Rightarrow> c = CHR ''#'' \<and> match_ref cs \<noteq> None)"

definition matched_text :: "re_match \<Rightarrow> string" where
  "matched_text m = CHR ''#'' # ref m @ group_or_empty (parens m) @ group_or_empty (trailing m)"

definition chained :: "re_match \<times> string \<Rightarrow> bool" where
  "chained mr = (is_word (last (matched_text (fst mr))) \<and> starts_token (snd mr))"

definition link_without_token ::
  "(string \<Rightarrow> string) \<Rightarrow> 'e crossref_processor \<Rightarrow> scope \<Rightarrow> 'e resolver option \<Rightarrow> api_suite
     \<Rightarrow> re_match \<Rightarrow> bool" where
  "link_without_token dumps self node resolver suite m =
     (case resolve dumps self node resolver suite (lookup_key m) (display_text m) of
        Inr (Some x) \<Rightarrow> finditer False x = []
      | _ \<Rightarrow> True)"

definition good_sub :: "string \<Rightarrow> bool" where
  "good_sub t =
     (t \<noteq> [] \<and> finditer False t = [] \<and> \<not> is_name_char (hd t) \<and> \<not> is_word (last t)
      \<and> last t \<noteq> CHR ''#'')"

text \<open>
  A basic resolver whose address for \<^verbatim>\<open>Foo\<close> is an anchor, and one whose address is a
  page with an anchor.
\<close>

definition anchor_resolver :: "string resolver" where
  "anchor_resolver node r = (if r = ''Foo'' then Inr (Some ''#foo'') else Inr None)"

definition page_resolver :: "string resolver" where
  "page_resolver node r = (if r = ''Foo'' then Inr (Some ''page.md#foo'') else Inr None)"

text \<open>
  A typed resolver that reads the suite: it finds every name once the docstring of the
  first module has been rewritten, and none before. A tree for it, the calls of the run on
  that tree and the tree after the run.
\<close>

definition live_v2 :: "string resolver_v2" where
  "live_v2 suite node r =
     (if map docstring suite = [Some ''`b()` and `ax`. then `b`.'']
      then Inr (Some [''pkg'', r]) else Inr None)"

definition live_tree :: "api_object list" where
  "live_tree =
     [ApiObject ''m'' (Some ''#b() and #a#x. then #b.'') [ApiObject ''f'' (Some ''#Foo #c'') []]]"

definition live_calls :: "unresolved call list" where
  "live_calls =
     [([ApiObject ''m'' (Some ''#b() and #a#x. then #b.'') [ApiObject ''f'' (Some ''#Foo #c'') []]],
       ([''m''],
        ApiObject ''m'' (Some ''#b() and #a#x. then #b.'') [ApiObject ''f'' (Some ''#Foo #c'') []]),
       []),
      ([ApiObject ''m'' (Some ''`b()` and `ax`. then `b`.'')
          [ApiObject ''f'' (Some ''#Foo #c'') []]],
       ([''m'', ''f''], ApiObject ''f'' (Some ''#Foo #c'') []),
       [(''m'', [''b'', ''a'', ''b''])])]"

definition live_after :: "api_object list" where
  "live_after =
     [ApiObject ''m'' (Some ''`b()` and `ax`. then `b`.'')
        [ApiObject ''f''
           (Some (''{@link pydoc:pkg.Foo :with '' @ plain_dumps ''Foo'' @ ''} ''
                    @ ''{@link pydoc:pkg.c :with '' @ plain_dumps ''c'' @ ''}''))
           []]]"

text \<open>A basic resolver that raises on the name \<^verbatim>\<open>Boom\<close>, and a tree that asks for it.\<close>

definition failing_resolver :: "string resolver" where
  "failing_resolver node r = (if r = ''Boom'' then Inl ''lookup failed'' else Inr None)"

definition boom_tree :: "api_object list" where
  "boom_tree =
     [ApiObject ''m'' (Some ''See #a.'')
        [ApiObject ''f'' (Some ''#b #Boom #c'') [], ApiObject ''g'' (Some ''#d'') []]]"

definition boom_after :: "api_object list" where
  "boom_after =
     [ApiObject ''m'' (Some ''See `a`.'')
        [ApiObject ''f'' (Some ''#b #Boom #c'') [], ApiObject ''g'' (Some ''#d'') []]]"

definition boom_calls :: "unresolved call list" where
  "boom_calls =
     [([ApiObject ''m'' (Some ''See #a.'')
          [ApiObject ''f'' (Some ''#b #Boom #c'') [], ApiObject ''g'' (Some ''#d'') []]],
       ([''m''],
        ApiObject ''m'' (Some ''See #a.'')
          [ApiObject ''f'' (Some ''#b #Boom #c'') [], ApiObject ''g'' (Some ''#d'') []]),
       []),
      ([ApiObject ''m'' (Some ''See `a`.'')
          [ApiObject ''f'' (Some ''#b #Boom #c'') [], ApiObject ''g'' (Some ''#d'') []]],
       ([''m'', ''f''], ApiObject ''f'' (Some ''#b #Boom #c'') []),
       [(''m'', [''a''])])]"

section \<open>The handler on one token\<close>

lemmas grammar_eval = match_ref_def is_name_char_def is_word_def split_match_def
  group_or_empty_def lstrip_hash_def endswith_dot_def

lemma not_found_resolve:
  "not_found self node resolver suite r \<Longrightarrow> resolve dumps self node resolver suite r text = Inr None"
  by (auto simp: not_found_def resolve_def split: option.splits)

lemma handler_eq:
  "handler dumps self node resolver suite m u =
     (case resolve dumps self node resolver suite (lookup_key m) (display_text m) of
        Inl e \<Rightarrow> Inl e
      | Inr None \<Rightarrow>
          Inr (''`'' @ display_text m @ ''`'' @ dot_suffix m,
               setdefault_append (uid node) (lookup_key m) u)
      | Inr (Some x) \<Rightarrow> Inr (x @ dot_suffix m, u))"
  by (simp add: handler_def lookup_key_def display_text_def dot_suffix_def uid_def
      split: prod.splits sum.splits option.splits)

text \<open>
  C1, as the specification states it, fails: with a typed resolver that finds nothing and a
  basic resolver that knows \<^verbatim>\<open>Foo\<close>, the docstring \<^verbatim>\<open>#Foo\<close> becomes the inline-code
  fallback and \<^verbatim>\<open>Foo\<close> is recorded as unresolved; the basic resolver is not asked.
\<close>

theorem no_fallback_to_basic_resolver:
  "preprocess_refs plain_dumps \<lparr>resolver_v2 = Some absent_v2\<rparr> (mod_node ''#Foo'')
       (Some foo_resolver) [] []
     = Inr (Some ''`Foo`'', [(''m'', [''Foo''])])
   \<and> preprocess_refs plain_dumps \<lparr>resolver_v2 = Some absent_v2\<rparr> (mod_node ''#Foo'')
       (Some foo_resolver) [] []
     \<noteq> Inr (Some ''[`Foo`](/api/foo)'', [])"
  by (simp add: preprocess_refs_def mod_node_def grammar_eval handler_def resolve_def
      absent_v2_def)

text \<open>
  C1, amended: a configured typed resolver is used instead of the basic resolver. When it
  returns absent for a token, the token is recorded as unresolved and rendered as inline
  code, whatever the basic resolver is; the basic resolver is asked only when no typed
  resolver is configured, and a non-empty address it returns gives the inline hyperlink.
\<close>

theorem typed_resolver_replaces_basic:
  "(resolver_v2 self = Some r2 \<and> r2 suite node (lookup_key m) = Inr None \<longrightarrow>
      handler dumps self node resolver suite m u
        = Inr (''`'' @ display_text m @ ''`'' @ dot_suffix m,
               setdefault_append (uid node) (lookup_key m) u))
   \<and> (resolver_v2 self = None \<and> resolver = Some r1 \<and> r1 node (lookup_key m) = Inr (Some href)
        \<and> href \<noteq> [] \<longrightarrow>
      handler dumps self node resolver suite m u
        = Inr (''[`'' @ display_text m @ ''`]('' @ href @ '')'' @ dot_suffix m, u))"
  by (simp add: handler_eq resolve_def)

theorem typed_resolver_replaces_basic_witness:
  "handler plain_dumps \<lparr>resolver_v2 = Some absent_v2\<rparr> (mod_node ''#Foo'') (Some foo_resolver) []
       \<lparr>ref = ''Foo'', parens = None, trailing = None\<rparr> []
     = Inr (''`Foo`'', [(''m'', [''Foo''])])
   \<and> handler plain_dumps \<lparr>resolver_v2 = None\<rparr> (mod_node ''#Foo'') (Some foo_resolver) []
       \<lparr>ref = ''Foo'', parens = None, trailing = None\<rparr> []
     = Inr (''[`Foo`](/api/foo)'', [])"
  using typed_resolver_replaces_basic [of "\<lparr>resolver_v2 = Some absent_v2\<rparr>" absent_v2 "[]"
      "mod_node ''#Foo''" "\<lparr>ref = ''Foo'', parens = None, trailing = None\<rparr>" plain_dumps
      "Some foo_resolver" "[]" foo_resolver "''/api/foo''"]
    typed_resolver_replaces_basic [of "\<lparr>resolver_v2 = None\<rparr>" absent_v2 "[]"
      "mod_node ''#Foo''" "\<lparr>ref = ''Foo'', parens = None, trailing = None\<rparr>" plain_dumps
      "Some foo_resolver" "[]" foo_resolver "''/api/foo''"]
  by (simp add: absent_v2_def foo_resolver_def lookup_key_def display_text_def dot_suffix_def
      uid_def mod_node_def grammar_eval)

text \<open>
  C5: when a typed resolver is configured and returns a target for the token, the
  substitution is the \<^verbatim>\<open>{@link}\<close> directive with the dot-joined names of the target's path
  and the serialised display text (followed by the dot that was taken off, if any),
  whatever the basic resolver is: the hyperlink form is not produced.
\<close>

theorem typed_target_gives_link_directive:
  assumes "resolver_v2 self = Some r2"
    and "r2 suite node (lookup_key m) = Inr (Some tgt)"
  shows "handler dumps self node resolver suite m u
           = Inr (''{@link pydoc:'' @ join ''.'' tgt @ '' :with '' @ dumps (display_text m) @ ''}''
                    @ dot_suffix m, u)"
  using assms by (simp add: handler_eq resolve_def)

theorem typed_target_gives_link_directive_witness:
  "handler plain_dumps \<lparr>resolver_v2 = Some foo_resolver_v2\<rparr> (mod_node ''#Foo()'')
       (Some foo_resolver) [] \<lparr>ref = ''Foo'', parens = Some ''()'', trailing = None\<rparr> []
     = Inr (''{@link pydoc:pkg.Foo :with text = '' @ [CHR 0x22] @ ''Foo()'' @ [CHR 0x22, CHR 0x0A]
              @ ''}'', [])"
  using typed_target_gives_link_directive [of "\<lparr>resolver_v2 = Some foo_resolver_v2\<rparr>"
      foo_resolver_v2 "[]" "mod_node ''#Foo()''"
      "\<lparr>ref = ''Foo'', parens = Some ''()'', trailing = None\<rparr>" "[''pkg'', ''Foo'']"
      plain_dumps "Some foo_resolver" "[]"]
  by (simp add: foo_resolver_v2_def lookup_key_def display_text_def dot_suffix_def
      plain_dumps_def grammar_eval)

section \<open>Concrete docstrings\<close>

text \<open>
  C2: the docstring \<^verbatim>\<open>#this~Foo\<close> with a basic resolver that resolves \<^verbatim>\<open>Foo\<close> to
  \<^verbatim>\<open>/api/foo\<close>. The pattern has no \<^verbatim>\<open>~\<close>: the match is \<^verbatim>\<open>#this\<close>, the name looked
  up is \<^verbatim>\<open>this\<close>, which is recorded as unresolved, and \<^verbatim>\<open>~Foo\<close> stays in the text.
  The hyperlink \<^verbatim>\<open>[`this`](/api/foo)\<close> of the rename syntax is not produced.
\<close>

theorem rename_token_is_not_renamed:
  "preprocess_refs dumps \<lparr>resolver_v2 = None\<rparr> (mod_node ''#this~Foo'') (Some foo_resolver) suite []
     = Inr (Some ''`this`~Foo'', [(''m'', [''this''])])"
  by (simp add: preprocess_refs_def mod_node_def grammar_eval handler_def resolve_def
      foo_resolver_def)

text \<open>
  C3, as the specification states it, fails: without resolver the docstring
  \<^verbatim>\<open>#Foo#bar\<close> becomes \<^verbatim>\<open>`Foobar`\<close>, not \<^verbatim>\<open>`Foo#bar`\<close>; the handler strips the
  \<^verbatim>\<open>#\<close> off the trailing group.
\<close>

theorem append_mode_drops_separator:
  "preprocess_refs plain_dumps \<lparr>resolver_v2 = None\<rparr> (mod_node ''#Foo#bar'') None [] []
     = Inr (Some ''`Foobar`'', [(''m'', [''Foo''])])
   \<and> preprocess_refs plain_dumps \<lparr>resolver_v2 = None\<rparr> (mod_node ''#Foo#bar'') None [] []
     \<noteq> Inr (Some ''`Foo#bar`'', [(''m'', [''Foo''])])"
  by (simp add: preprocess_refs_def mod_node_def grammar_eval handler_def resolve_def)

text \<open>
  C3, amended: for the docstring \<^verbatim>\<open>#Foo#bar\<close>, when no configured resolver finds
  \<^verbatim>\<open>Foo\<close>, the rewritten text is the inline code \<^verbatim>\<open>`Foobar`\<close> (the suffix is appended
  without the \<^verbatim>\<open>#\<close>) and the name recorded is \<^verbatim>\<open>Foo\<close>. The only assumption on the
  resolvers is their answer for the name \<^verbatim>\<open>Foo\<close>: that is the name they are asked.
\<close>

theorem append_mode_display:
  assumes "docstring (snd node) = Some ''#Foo#bar''"
    and "not_found self node resolver suite ''Foo''"
  shows "preprocess_refs dumps self node resolver suite u
           = Inr (Some ''`Foobar`'', setdefault_append (uid node) ''Foo'' u)"
  using assms
  by (simp add: preprocess_refs_def grammar_eval handler_def not_found_resolve uid_def)

theorem append_mode_display_witness:
  "preprocess_refs plain_dumps \<lparr>resolver_v2 = None\<rparr> (mod_node ''#Foo#bar'') None [] []
     = Inr (Some ''`Foobar`'', [(''m'', [''Foo''])])"
  using append_mode_display [of "mod_node ''#Foo#bar''" "\<lparr>resolver_v2 = None\<rparr>" None "[]"
      plain_dumps "[]"]
  by (simp add: not_found_def uid_def mod_node_def)

text \<open>
  C4: for the docstring \<^verbatim>\<open>See #Foo.\<close>, when no configured resolver finds \<^verbatim>\<open>Foo\<close>,
  the result is exactly \<^verbatim>\<open>See `Foo`.\<close>: the name looked up and recorded is \<^verbatim>\<open>Foo\<close>
  without the dot, and the dot stands behind the inline code.
\<close>

theorem trailing_period_preserved:
  assumes "docstring (snd node) = Some ''See #Foo.''"
    and "not_found self node resolver suite ''Foo''"
  shows "preprocess_refs dumps self node resolver suite u
           = Inr (Some ''See `Foo`.'', setdefault_append (uid node) ''Foo'' u)"
  using assms
  by (simp add: preprocess_refs_def grammar_eval handler_def not_found_resolve uid_def)

theorem trailing_period_preserved_witness:
  "preprocess_refs plain_dumps \<lparr>resolver_v2 = Some absent_v2\<rparr> (mod_node ''See #Foo.'')
       (Some foo_resolver) [] []
     = Inr (Some ''See `Foo`.'', [(''m'', [''Foo''])])"
  using trailing_period_preserved [of "mod_node ''See #Foo.''" "\<lparr>resolver_v2 = Some absent_v2\<rparr>"
      "Some foo_resolver" "[]" plain_dumps "[]"]
  by (simp add: not_found_def absent_v2_def uid_def mod_node_def)

section \<open>The visit\<close>

lemma visit_Nil: "visit func ctx prefix [] u = Some ([], Inr ([], u))"
  by (subst visit.simps) simp

lemma visit_Cons_raise:
  "func (ctx (x # rest)) (prefix @ [name x], x) u = Inl e
     \<Longrightarrow> visit func ctx prefix (x # rest) u
           = Some ([(ctx (x # rest), (prefix @ [name x], x), u)], Inl (e, ctx (x # rest)))"
  by (subst visit.simps) simp

lemma visit_Cons_member_raise:
  "func (ctx (x # rest)) (prefix @ [name x], x) u = Inr (x', u1)
     \<Longrightarrow> visit func (\<lambda>ms. ctx (with_members x' ms # rest)) (prefix @ [name x']) (members x') u1
           = Some (c1, Inl err)
     \<Longrightarrow> visit func ctx prefix (x # rest) u
           = Some ((ctx (x # rest), (prefix @ [name x], x), u) # c1, Inl err)"
  by (subst visit.simps) simp

lemma visit_Cons_go_on:
  "func (ctx (x # rest)) (prefix @ [name x], x) u = Inr (x', u1)
     \<Longrightarrow> visit func (\<lambda>ms. ctx (with_members x' ms # rest)) (prefix @ [name x']) (members x') u1
           = Some (c1, Inr (ms', u2))
     \<Longrightarrow> visit func (\<lambda>rest'. ctx (with_members x' ms' # rest')) prefix rest u2 = Some (c2, r2)
     \<Longrightarrow> visit func ctx prefix (x # rest) u
           = Some ((ctx (x # rest), (prefix @ [name x], x), u) # c1 @ c2,
                   case r2 of Inl err \<Rightarrow> Inl err
                   | Inr (rest', u3) \<Rightarrow> Inr (with_members x' ms' # rest', u3))"
  by (subst visit.simps) simp

text \<open>
  When the function leaves the members of every object as they are, the visit ends, and
  a property of its result follows from the four ways a visit goes: no object; the
  function raises on the first object; the visit of its members raises; the visit goes on
  with the other objects.
\<close>

lemma visit_total_induct:
  assumes pres: "\<And>suite node u x' u'. func suite node u = Inr (x', u')
                   \<Longrightarrow> members x' = members (snd node)"
    and nil: "\<And>ctx prefix u. P ctx prefix [] u ([], Inr ([], u))"
    and rais: "\<And>ctx x rest prefix u e.
        func (ctx (x # rest)) (prefix @ [name x], x) u = Inl e
        \<Longrightarrow> P ctx prefix (x # rest) u
              ([(ctx (x # rest), (prefix @ [name x], x), u)], Inl (e, ctx (x # rest)))"
    and mem: "\<And>ctx x rest prefix u x' u1 c1 err.
        func (ctx (x # rest)) (prefix @ [name x], x) u = Inr (x', u1)
        \<Longrightarrow> P (\<lambda>ms. ctx (with_members x' ms # rest)) (prefix @ [name x']) (members x') u1
              (c1, Inl err)
        \<Longrightarrow> P ctx prefix (x # rest) u
              ((ctx (x # rest), (prefix @ [name x], x), u) # c1, Inl err)"
    and go: "\<And>ctx x rest prefix u x' u1 c1 ms' u2 c2 r2.
        func (ctx (x # rest)) (prefix @ [name x], x) u = Inr (x', u1)
        \<Longrightarrow> P (\<lambda>ms. ctx (with_members x' ms # rest)) (prefix @ [name x']) (members x') u1
              (c1, Inr (ms', u2))
        \<Longrightarrow> P (\<lambda>rest'. ctx (with_members x' ms' # rest')) prefix rest u2 (c2, r2)
        \<Longrightarrow> P ctx prefix (x # rest) u
              ((ctx (x # rest), (prefix @ [name x], x), u) # c1 @ c2,
               case r2 of Inl err \<Rightarrow> Inl err
               | Inr (rest', u3) \<Rightarrow> Inr (with_members x' ms' # rest', u3))"
  shows "\<exists>r. visit func ctx prefix objects u = Some r \<and> P ctx prefix objects u r"
proof (induction objects arbitrary: ctx prefix u rule: measure_induct_rule [of "size_list size"])
  case (less objects)
  show ?case
  proof (cases objects)
    case Nil
    then show ?thesis using nil by (simp add: visit_Nil)
  next
    case (Cons x rest)
    show ?thesis
    proof (cases "func (ctx (x # rest)) (prefix @ [name x], x) u")
      case (Inl e)
      then show ?thesis
        using rais [of ctx x rest "prefix" u e] visit_Cons_raise [of func ctx x rest "prefix" u e] Cons
        by simp
    next
      case (Inr a)
      obtain x' u1 where a: "a = (x', u1)" by (cases a)
      note f = Inr [unfolded a]
      have mx: "members x' = members x" using pres [OF f] by simp
      have "size_list size (members x') < size_list size objects"
        using mx Cons by (cases x) simp
      from less.IH [OF this] obtain r1
        where v1: "visit func (\<lambda>ms. ctx (with_members x' ms # rest)) (prefix @ [name x'])
                     (members x') u1 = Some r1"
          and p1: "P (\<lambda>ms. ctx (with_members x' ms # rest)) (prefix @ [name x']) (members x') u1 r1"
        by blast
      obtain c1 o1 where r1: "r1 = (c1, o1)" by (cases r1)
      show ?thesis
      proof (cases o1)
        case (Inl err)
        then show ?thesis
          using visit_Cons_member_raise [of func ctx x rest "prefix" u x' u1 c1 err]
            mem [of ctx x rest "prefix" u x' u1 c1 err] f v1 p1 r1 Cons
          by simp
      next
        case (Inr b)
        obtain ms' u2 where b: "b = (ms', u2)" by (cases b)
        have "size_list size rest < size_list size objects" using Cons by simp
        from less.IH [OF this] obtain r2
          where v2: "visit func (\<lambda>rest'. ctx (with_members x' ms' # rest')) prefix rest u2 = Some r2"
            and p2: "P (\<lambda>rest'. ctx (with_members x' ms' # rest')) prefix rest u2 r2"
          by blast
        obtain c2 o2 where r2: "r2 = (c2, o2)" by (cases r2)
        show ?thesis
          using visit_Cons_go_on [of func ctx x rest "prefix" u x' u1 c1 ms' u2 c2 o2]
            go [of ctx x rest "prefix" u x' u1 c1 ms' u2 c2 o2] f v1 p1 v2 p2 r1 r2 Inr b Cons
          by simp
      qed
    qed
  qed
qed

lemma nodes_Cons:
  "nodes prefix (x # rest)
     = (prefix @ [name x], x) # nodes (prefix @ [name x]) (members x) @ nodes prefix rest"
  by (cases x) simp

lemma preprocess_node_members:
  "preprocess_node dumps self resolver suite node u = Inr (x', u')
     \<Longrightarrow> members x' = members (snd node)"
  by (auto simp: preprocess_node_def split: sum.splits)

lemma preprocess_node_skeleton:
  "preprocess_node dumps self resolver suite node u = Inr (x', u')
     \<Longrightarrow> name x' = name (snd node) \<and> members x' = members (snd node)
         \<and> blank (docstring x') = blank (docstring (snd node))"
  by (auto simp: preprocess_node_def preprocess_refs_def blank_def split: sum.splits option.splits)

section \<open>Text without reference tokens\<close>






lemma visit_refs_induct:
  assumes "\<And>ctx prefix u. P ctx prefix [] u ([], Inr ([], u))"
    and "\<And>ctx x rest prefix u e.
        preprocess_node dumps self resolver (ctx (x # rest)) (prefix @ [name x], x) u = Inl e
        \<Longrightarrow> P ctx prefix (x # rest) u
              ([(ctx (x # rest), (prefix @ [name x], x), u)], Inl (e, ctx (x # rest)))"
    and "\<And>ctx x rest prefix u x' u1 c1 err.
        preprocess_node dumps self resolver (ctx (x # rest)) (prefix @ [name x], x) u = Inr (x', u1)
        \<Longrightarrow> P (\<lambda>ms. ctx (with_members x' ms # rest)) (prefix @ [name x']) (members x') u1
              (c1, Inl err)
        \<Longrightarrow> P ctx prefix (x # rest) u
              ((ctx (x # rest), (prefix @ [name x], x), u) # c1, Inl err)"
    and "\<And>ctx x rest prefix u x' u1 c1 ms' u2 c2 r2.
        preprocess_node dumps self resolver (ctx (x # rest)) (prefix @ [name x], x) u = Inr (x', u1)
        \<Longrightarrow> P (\<lambda>ms. ctx (with_members x' ms # rest)) (prefix @ [name x']) (members x') u1
              (c1, Inr (ms', u2))
        \<Longrightarrow> P (\<lambda>rest'. ctx (with_members x' ms' # rest')) prefix rest u2 (c2, r2)
        \<Longrightarrow> P ctx prefix (x # rest) u
              ((ctx (x # rest), (prefix @ [name x], x), u) # c1 @ c2,
               case r2 of Inl err \<Rightarrow> Inl err
               | Inr (rest', u3) \<Rightarrow> Inr (with_members x' ms' # rest', u3))"
  shows "\<exists>r. visit (preprocess_node dumps self resolver) ctx prefix objects u = Some r
             \<and> P ctx prefix objects u r"
  by (rule visit_total_induct [where func = "preprocess_node dumps self resolver" and P = P,
        OF preprocess_node_members assms])

section \<open>The frame of a run\<close>

lemma skeleton_collapse: "skeleton x = ApiObject (name x) (blank (docstring x)) (map skeleton (members x))"
  by (cases x) simp

lemma skeleton_with_members:
  "skeleton (with_members x ms) = ApiObject (name x) (blank (docstring x)) (map skeleton ms)"
  by (simp add: with_members_def)

lemma visit_skeleton:
  "\<exists>r. visit (preprocess_node dumps self resolver) ctx prefix objects u = Some r
       \<and> (case snd r of
            Inl (e, t) \<Rightarrow> \<exists>objs'. t = ctx objs' \<and> map skeleton objs' = map skeleton objects
          | Inr (objs', u') \<Rightarrow> map skeleton objs' = map skeleton objects)"
proof (rule visit_refs_induct
    [where P = "\<lambda>ctx prefix objects u r.
       case snd r of
         Inl (e, t) \<Rightarrow> \<exists>objs'. t = ctx objs' \<and> map skeleton objs' = map skeleton objects
       | Inr (objs', u') \<Rightarrow> map skeleton objs' = map skeleton objects"], goal_cases)
  case (1 ctx prefix u)
  then show ?case by simp
next
  case (2 ctx x rest prefix u e)
  then show ?case by auto
next
  case (3 ctx x rest prefix u x' u1 c1 err)
  obtain e t where err: "err = (e, t)" by (cases err)
  from 3(2) err obtain ms'' where t: "t = ctx (with_members x' ms'' # rest)"
    and s: "map skeleton ms'' = map skeleton (members x')"
    by auto
  have "map skeleton (with_members x' ms'' # rest) = map skeleton (x # rest)"
    using preprocess_node_skeleton [OF 3(1)] s
    by (simp add: skeleton_with_members skeleton_collapse [of x])
  then show ?case using t err by auto
next
  case (4 ctx x rest prefix u x' u1 c1 ms' u2 c2 r2)
  have s1: "map skeleton ms' = map skeleton (members x')" using 4(2) by simp
  have hd: "skeleton (with_members x' ms') = skeleton x"
    using preprocess_node_skeleton [OF 4(1)] s1
    by (simp add: skeleton_with_members skeleton_collapse [of x])
  show ?case
  proof (cases r2)
    case (Inl err)
    obtain e t where err: "err = (e, t)" by (cases err)
    from 4(3) Inl err obtain rest'' where t: "t = ctx (with_members x' ms' # rest'')"
      and s: "map skeleton rest'' = map skeleton rest"
      by auto
    show ?thesis using Inl err t s hd by auto
  next
    case (Inr b)
    then show ?thesis using 4(3) hd by (auto split: prod.splits)
  qed
qed

section \<open>The calls of a run\<close>

lemma visit_scopes:
  "\<exists>r. visit (preprocess_node dumps self resolver) ctx prefix objects u = Some r
       \<and> (case snd r of
            Inl err \<Rightarrow> \<exists>more. nodes prefix objects = map call_scope (fst r) @ more
          | Inr res \<Rightarrow> map call_scope (fst r) = nodes prefix objects)"
proof (rule visit_refs_induct
    [where P = "\<lambda>ctx prefix objects u r.
       case snd r of
         Inl err \<Rightarrow> \<exists>more. nodes prefix objects = map call_scope (fst r) @ more
       | Inr res \<Rightarrow> map call_scope (fst r) = nodes prefix objects"], goal_cases)
  case (1 ctx prefix u)
  then show ?case by simp
next
  case (2 ctx x rest prefix u e)
  then show ?case by (simp add: nodes_Cons call_scope_def)
next
  case (3 ctx x rest prefix u x' u1 c1 err)
  then show ?case
    using preprocess_node_skeleton [OF 3(1)] by (auto simp: nodes_Cons call_scope_def)
next
  case (4 ctx x rest prefix u x' u1 c1 ms' u2 c2 r2)
  then show ?case
    using preprocess_node_skeleton [OF 4(1)]
    by (cases r2) (auto simp: nodes_Cons call_scope_def)
qed

lemma preprocess_node_doc:
  "preprocess_node dumps self resolver suite node u = Inr (x', u')
     \<Longrightarrow> docstring x' = call_doc dumps self resolver (suite, node, u)"
  by (auto simp: preprocess_node_def preprocess_refs_def call_doc_def call_scope_def
      call_suite_def call_state_def split: sum.splits option.splits)

lemma visit_docs:
  "\<exists>r. visit (preprocess_node dumps self resolver) ctx prefix objects u = Some r
       \<and> (\<forall>objs' u'. snd r = Inr (objs', u') \<longrightarrow>
             map (\<lambda>n. docstring (snd n)) (nodes prefix objs')
               = map (call_doc dumps self resolver) (fst r))"
proof (rule visit_refs_induct
    [where P = "\<lambda>ctx prefix objects u r.
       \<forall>objs' u'. snd r = Inr (objs', u') \<longrightarrow>
          map (\<lambda>n. docstring (snd n)) (nodes prefix objs')
            = map (call_doc dumps self resolver) (fst r)"], goal_cases)
  case (1 ctx prefix u)
  then show ?case by simp
next
  case (2 ctx x rest prefix u e)
  then show ?case by simp
next
  case (3 ctx x rest prefix u x' u1 c1 err)
  then show ?case by simp
next
  case (4 ctx x rest prefix u x' u1 c1 ms' u2 c2 r2)
  then show ?case
    using preprocess_node_doc [OF 4(1)]
    by (cases r2) (auto simp: nodes_Cons with_members_def)
qed

section \<open>The report of unresolved references\<close>

lemma resolve_None_iff:
  "resolve dumps self node resolver suite r text = Inr None \<longleftrightarrow> not_found self node resolver suite r"
  by (auto simp: not_found_def resolve_def split: option.splits sum.splits)

lemma handler_state:
  "handler dumps self node resolver suite m u = Inr (out, u')
     \<Longrightarrow> u' = (if not_found self node resolver suite (lookup_key m)
               then setdefault_append (uid node) (lookup_key m) u else u)"
  using resolve_None_iff [of dumps self node resolver suite "lookup_key m" "display_text m"]
  by (auto simp: handler_eq split: sum.splits option.splits)

lemma re_sub_state:
  assumes "\<And>m u out u'. h m u = Inr (out, u') \<Longrightarrow> u' = (if P m then g m u else u)"
  shows "re_sub h prevw s u = Inr (out, u')
           \<Longrightarrow> u' = fold g (filter P (map fst (finditer prevw s))) u"
  using assms
proof (induction h prevw s u arbitrary: out u' rule: re_sub.induct)
  case (1 h prevw u)
  then show ?case by simp
next
  case (2 h prevw c cs u)
  show ?case
  proof (cases "if c = CHR ''#'' \<and> \<not> prevw then match_ref cs else None")
    case None
    then obtain o1 where r: "re_sub h (is_word c) cs u = Inr (o1, u')"
      using "2.prems"(1) by (auto split: sum.splits)
    have "u' = fold g (filter P (map fst (finditer (is_word c) cs))) u"
      using "2.IH"(1) [OF None r] "2.prems"(2) by blast
    then show ?thesis using None by simp
  next
    case (Some a)
    obtain m k where a: "a = (m, k)" by (cases a)
    from Some a "2.prems"(1) obtain o1 u1 where h: "h m u = Inr (o1, u1)"
      by (auto split: sum.splits)
    from Some a h "2.prems"(1) obtain o2
      where r: "re_sub h (is_word (last (take k cs))) (drop k cs) u1 = Inr (o2, u')"
      by (auto split: sum.splits)
    have u1: "u1 = (if P m then g m u else u)" using "2.prems"(2) [OF h] .
    have "u' = fold g (filter P (map fst (finditer (is_word (last (take k cs))) (drop k cs)))) u1"
      using "2.IH"(2) [OF Some [unfolded a] refl h refl r] "2.prems"(2) by blast
    then show ?thesis using Some a u1 by simp
  qed
qed

lemma preprocess_refs_state:
  assumes "preprocess_refs dumps self node resolver suite u = Inr (d', u')"
  shows "u' = fold (setdefault_append (uid node)) (unresolved_keys self resolver suite node) u"
proof (cases "docstring (snd node)")
  case None
  then show ?thesis using assms
    by (simp add: preprocess_refs_def unresolved_keys_def node_tokens_def)
next
  case (Some content)
  with assms obtain out
    where r: "re_sub (handler dumps self node resolver suite) False content u = Inr (out, u')"
    by (auto simp: preprocess_refs_def split: sum.splits)
  have "u' = fold (\<lambda>m. setdefault_append (uid node) (lookup_key m))
               (filter (\<lambda>m. not_found self node resolver suite (lookup_key m))
                  (map fst (finditer False content))) u"
    by (rule re_sub_state [OF _ r]) (rule handler_state)
  then show ?thesis using Some
    by (simp add: unresolved_keys_def node_tokens_def fold_map comp_def)
qed

lemma report_setdefault_append:
  "report (setdefault_append k r u) k' = (if k' = k then report u k @ [r] else report u k')"
  by (induction u) (auto simp: report_def)

lemma report_fold_setdefault_append:
  "report (fold (setdefault_append k) rs u) k' = (if k' = k then report u k @ rs else report u k')"
  by (induction rs arbitrary: u) (auto simp: report_setdefault_append)

lemma is_name_char_punct:
  "\<not> is_name_char CHR ''#''" "\<not> is_name_char CHR ''(''" "\<not> is_name_char CHR '')''"
  by (simp_all add: is_name_char_def is_word_def)

lemma match_ref_ref:
  "match_ref cs = Some (m, k) \<Longrightarrow> ref m \<noteq> [] \<and> (\<forall>c \<in> set (ref m). is_name_char c)"
  by (auto simp: match_ref_def Let_def split: if_splits dest: set_takeWhileD)

lemma finditer_match:
  "(m, rest) \<in> set (finditer prevw s) \<Longrightarrow> \<exists>cs k. match_ref cs = Some (m, k)"
proof (induction prevw s rule: finditer.induct)
  case (1 prevw)
  then show ?case by simp
next
  case (2 prevw c cs)
  then show ?case
    by (cases "if c = CHR ''#'' \<and> \<not> prevw then match_ref cs else None") (auto split: if_splits)
qed

lemma endswith_dot_butlast: "endswith_dot r \<Longrightarrow> r = butlast r @ ''.''"
  by (metis append_butlast_last_id endswith_dot_def)

lemma lookup_key_ref: "lookup_key m = ref m \<or> ref m = lookup_key m @ ''.''"
  using endswith_dot_butlast [of "ref m"]
  by (auto simp: lookup_key_def split_match_def Let_def)

lemma token_plain_key:
  assumes "m \<in> set (node_tokens node)"
  shows "plain_key m"
proof -
  from assms obtain content rest where "(m, rest) \<in> set (finditer False content)"
    by (auto simp: node_tokens_def split: option.splits)
  then obtain cs k where "match_ref cs = Some (m, k)" using finditer_match by blast
  then have r: "\<forall>c \<in> set (ref m). is_name_char c" using match_ref_ref by blast
  have "set (lookup_key m) \<subseteq> set (ref m)"
    using lookup_key_ref [of m] by (metis set_append subset_refl sup_ge1)
  with r have "CHR ''#'' \<notin> set (lookup_key m) \<and> CHR ''('' \<notin> set (lookup_key m)
      \<and> CHR '')'' \<notin> set (lookup_key m)"
    using is_name_char_punct by blast
  then show ?thesis using lookup_key_ref [of m] by (simp add: plain_key_def)
qed


lemma preprocess_node_state:
  "preprocess_node dumps self resolver suite node u = Inr (x', u')
     \<Longrightarrow> u' = fold (setdefault_append (uid node)) (unresolved_keys self resolver suite node) u"
  by (auto simp: preprocess_node_def split: sum.splits dest: preprocess_refs_state)

lemma visit_state:
  "\<exists>r. visit (preprocess_node dumps self resolver) ctx prefix objects u = Some r
       \<and> (\<forall>objs' u'. snd r = Inr (objs', u') \<longrightarrow>
             u' = fold (\<lambda>c. fold (setdefault_append (uid (call_scope c)))
                          (unresolved_keys self resolver (call_suite c) (call_scope c)))
                    (fst r) u)"
proof (rule visit_refs_induct
    [where P = "\<lambda>ctx prefix objects u r.
       \<forall>objs' u'. snd r = Inr (objs', u') \<longrightarrow>
          u' = fold (\<lambda>c. fold (setdefault_append (uid (call_scope c)))
                       (unresolved_keys self resolver (call_suite c) (call_scope c)))
                 (fst r) u"], goal_cases)
  case (1 ctx prefix u)
  then show ?case by simp
next
  case (2 ctx x rest prefix u e)
  then show ?case by simp
next
  case (3 ctx x rest prefix u x' u1 c1 err)
  then show ?case by simp
next
  case (4 ctx x rest prefix u x' u1 c1 ms' u2 c2 r2)
  then show ?case
    using preprocess_node_state [OF 4(1)]
    by (cases r2) (auto simp: call_scope_def call_suite_def)
qed

lemma report_fold_calls:
  "report (fold (\<lambda>c. fold (setdefault_append (uid (call_scope c)))
                       (unresolved_keys self resolver (call_suite c) (call_scope c))) cs u) k
     = report u k @ expected_report self resolver cs k"
  by (induction cs arbitrary: u)
    (auto simp: report_fold_setdefault_append expected_report_def call_keys_def)

section \<open>Resolvers that raise\<close>

lemma first_some_append:
  "first_some (xs @ ys) = (case first_some xs of Some x \<Rightarrow> Some x | None \<Rightarrow> first_some ys)"
  by (induction xs rule: first_some.induct) auto

lemma first_some_concat:
  "first_some (map g (concat xss)) = first_some (map (\<lambda>xs. first_some (map g xs)) xss)"
proof (induction xss)
  case Nil
  then show ?case by simp
next
  case (Cons xs xss)
  then show ?case
    by (cases "first_some (map g xs)") (simp_all add: first_some_append)
qed

lemma resolve_raised:
  "raised_exn (resolve dumps self node resolver suite r text) = raises self resolver suite (node, r)"
  by (auto simp: resolve_def raises_def raised_exn_def split: option.splits sum.splits)

lemma handler_raised:
  "raised_exn (handler dumps self node resolver suite m u)
     = raises self resolver suite (node, lookup_key m)"
  using resolve_raised [of dumps self node resolver suite "lookup_key m" "display_text m"]
  by (auto simp: handler_eq raised_exn_def split: option.splits sum.splits)

lemma re_sub_raised:
  assumes "\<And>m u. raised_exn (h m u) = g m"
  shows "raised_exn (re_sub h prevw s u) = first_some (map g (map fst (finditer prevw s)))"
  using assms
proof (induction h prevw s u rule: re_sub.induct)
  case (1 h prevw u)
  then show ?case by (simp add: raised_exn_def)
next
  case (2 h prevw c cs u)
  show ?case
  proof (cases "if c = CHR ''#'' \<and> \<not> prevw then match_ref cs else None")
    case None
    have "raised_exn (re_sub h (is_word c) cs u) = first_some (map g (map fst (finditer (is_word c) cs)))"
      using "2.IH"(1) [OF None] "2.prems" by blast
    then show ?thesis using None
      by (auto simp: raised_exn_def split: sum.splits)
  next
    case (Some a)
    obtain m k where a: "a = (m, k)" by (cases a)
    show ?thesis
    proof (cases "h m u")
      case (Inl e)
      then have "g m = Some e" using "2.prems" [of m u] by (simp add: raised_exn_def)
      then show ?thesis using Some a Inl by (simp add: raised_exn_def)
    next
      case (Inr b)
      obtain o1 u1 where b: "b = (o1, u1)" by (cases b)
      have gm: "g m = None" using "2.prems" [of m u] Inr by (simp add: raised_exn_def)
      have "raised_exn (re_sub h (is_word (last (take k cs))) (drop k cs) u1)
              = first_some (map g (map fst (finditer (is_word (last (take k cs))) (drop k cs))))"
        using "2.IH"(2) [OF Some [unfolded a] refl Inr [unfolded b] refl] "2.prems" by blast
      then show ?thesis using Some a Inr b gm
        by (auto simp: raised_exn_def split: sum.splits)
    qed
  qed
qed


lemma preprocess_refs_raised:
  "raised_exn (preprocess_refs dumps self node resolver suite u)
     = first_some (map (\<lambda>m. raises self resolver suite (node, lookup_key m)) (node_tokens node))"
proof (cases "docstring (snd node)")
  case None
  then show ?thesis
    by (simp add: preprocess_refs_def node_tokens_def raised_exn_def)
next
  case (Some content)
  have "raised_exn (re_sub (handler dumps self node resolver suite) False content u)
          = first_some (map (\<lambda>m. raises self resolver suite (node, lookup_key m))
                          (map fst (finditer False content)))"
    by (rule re_sub_raised) (rule handler_raised)
  then show ?thesis using Some
    by (auto simp: preprocess_refs_def node_tokens_def raised_exn_def split: sum.splits)
qed

lemma preprocess_node_raised:
  "raised_exn (preprocess_node dumps self resolver suite node u)
     = call_raises self resolver (suite, node, u)"
  using preprocess_refs_raised [of dumps self node resolver suite u]
  by (auto simp: preprocess_node_def raised_exn_def call_raises_def call_suite_def call_scope_def
      split: sum.splits)

lemma first_some_Cons:
  "first_some (x # xs) = (case x of None \<Rightarrow> first_some xs | Some y \<Rightarrow> Some y)"
  by (cases x) simp_all

lemma call_raises_result:
  "call_raises self resolver (suite, node, u)
     = raised_exn (preprocess_node dumps self resolver suite node u)"
  by (simp add: preprocess_node_raised)

lemma visit_raised:
  "\<exists>r. visit (preprocess_node dumps self resolver) ctx prefix objects u = Some r
       \<and> process_raised (snd r) = first_raise self resolver (fst r)"
proof (rule visit_refs_induct
    [where P = "\<lambda>ctx prefix objects u r.
       process_raised (snd r) = first_raise self resolver (fst r)"], goal_cases)
  case (1 ctx prefix u)
  then show ?case by (simp add: process_raised_def raised_exn_def first_raise_def)
next
  case (2 ctx x rest prefix u e)
  then show ?case
    by (simp add: process_raised_def first_raise_def first_some_Cons
        call_raises_result [where dumps = dumps] raised_exn_def)
next
  case (3 ctx x rest prefix u x' u1 c1 err)
  then show ?case
    by (simp add: process_raised_def first_raise_def first_some_Cons
        call_raises_result [where dumps = dumps] raised_exn_def)
next
  case (4 ctx x rest prefix u x' u1 c1 ms' u2 c2 r2)
  have "first_some (map (call_raises self resolver) c1) = None"
    using 4(2) by (simp add: process_raised_def first_raise_def raised_exn_def)
  then show ?case
    using 4(1,3)
    by (cases r2)
      (auto simp: process_raised_def first_raise_def first_some_Cons first_some_append
        call_raises_result [where dumps = dumps] raised_exn_def split: prod.splits)
qed

section \<open>A second run over the output\<close>

lemma match_ref_None_iff: "match_ref cs = None \<longleftrightarrow> (cs = [] \<or> \<not> is_name_char (hd cs))"
  by (cases cs) (auto simp: match_ref_def Let_def)

lemma finditer_no_hash: "CHR ''#'' \<notin> set t \<Longrightarrow> finditer q t = []"
  by (induction t arbitrary: q) auto

text \<open>
  A text without match, not ending in \<^verbatim>\<open>#\<close>, has no match either when more text
  follows it: a match would start at a \<^verbatim>\<open>#\<close> of the text with a name character
  behind it.
\<close>

lemma finditer_embedded:
  "t \<noteq> [] \<Longrightarrow> last t \<noteq> CHR ''#'' \<Longrightarrow> finditer q t = []
     \<Longrightarrow> finditer q (t @ r) = finditer (is_word (last t)) r"
proof (induction t arbitrary: q)
  case Nil
  then show ?case by simp
next
  case (Cons c t)
  show ?case
  proof (cases t)
    case Nil
    then show ?thesis using Cons.prems by simp
  next
    case (Cons c' t')
    note t = this
    show ?thesis
    proof (cases "c = CHR ''#'' \<and> \<not> q")
      case True
      with Cons.prems(3) have n: "match_ref t = None" and f: "finditer (is_word c) t = []"
        by (auto split: option.splits)
      from n t have "\<not> is_name_char c'" by (simp add: match_ref_None_iff)
      then have "match_ref (t @ r) = None" using t by (simp add: match_ref_None_iff)
      then show ?thesis using True Cons.IH [OF _ _ f] Cons.prems t by simp
    next
      case False
      with Cons.prems(3) have f: "finditer (is_word c) t = []" by auto
      show ?thesis using False Cons.IH [OF _ _ f] Cons.prems t by auto
    qed
  qed
qed

lemma finditer_Nil_re_sub: "finditer p s = [] \<Longrightarrow> re_sub h p s u = Inr (s, u)"
proof (induction p s arbitrary: u rule: finditer.induct)
  case (1 prevw)
  then show ?case by simp
next
  case (2 prevw c cs)
  then show ?case
    by (cases "if c = CHR ''#'' \<and> \<not> prevw then match_ref cs else None") (auto split: if_splits)
qed

lemma match_ref_shape:
  assumes "match_ref cs = Some (m, k)"
  obtains r p t rest where
    "cs = r @ p @ t @ rest" "k = length (r @ p @ t)"
    "ref m = r" "group_or_empty (parens m) = p" "group_or_empty (trailing m) = t"
    "r \<noteq> []" "\<forall>c \<in> set r. is_name_char c"
    "p = [] \<or> p = ''()''"
    "t = [] \<or> (\<exists>t'. t = CHR ''#'' # t' \<and> t' \<noteq> [] \<and> (\<forall>c \<in> set t'. is_name_char c))"
    "t = [] \<longrightarrow> \<not> starts_token rest"
    "p = [] \<and> t = [] \<longrightarrow> rest = dropWhile is_name_char cs"
proof -
  define r where "r = takeWhile is_name_char cs"
  define s1 where "s1 = dropWhile is_name_char cs"
  define P where "P = (if take 2 s1 = ''()'' then Some ''()'' else None)"
  define s2 where "s2 = (if take 2 s1 = ''()'' then drop 2 s1 else s1)"
  define T where "T = (case s2 of [] \<Rightarrow> None | h # s3 \<Rightarrow>
      if h = CHR ''#'' \<and> takeWhile is_name_char s3 \<noteq> []
      then Some (h # takeWhile is_name_char s3) else None)"
  define p where "p = group_or_empty P"
  define t where "t = group_or_empty T"
  define rest where "rest = drop (length t) s2"
  from assms have r: "r \<noteq> []" by (auto simp: r_def match_ref_def Let_def split: if_splits)
  have "match_ref cs = Some (\<lparr>ref = r, parens = P, trailing = T\<rparr>,
          length r + (case P of None \<Rightarrow> 0 | Some x \<Rightarrow> length x)
                   + (case T of None \<Rightarrow> 0 | Some x \<Rightarrow> length x))"
    unfolding match_ref_def Let_def r_def s1_def P_def s2_def T_def
    using r [unfolded r_def] by (simp only: if_False)
  with assms have "m = \<lparr>ref = r, parens = P, trailing = T\<rparr>"
    and "k = length r + (case P of None \<Rightarrow> 0 | Some x \<Rightarrow> length x)
                   + (case T of None \<Rightarrow> 0 | Some x \<Rightarrow> length x)"
    by simp_all
  then have m: "ref m = r" "group_or_empty (parens m) = p" "group_or_empty (trailing m) = t"
    and k: "k = length r + length p + length t"
    by (auto simp: p_def t_def group_or_empty_def split: option.splits)
  have cs: "cs = r @ s1" by (simp add: r_def s1_def)
  have s1: "s1 = p @ s2"
  proof (cases "take 2 s1 = ''()''")
    case True
    have "s1 = take 2 s1 @ drop 2 s1" by simp
    with True show ?thesis by (simp add: p_def P_def group_or_empty_def s2_def)
  next
    case False
    then show ?thesis by (simp add: p_def P_def group_or_empty_def s2_def)
  qed
  have t_pre: "take (length t) s2 = t"
    by (cases s2) (auto simp: t_def T_def group_or_empty_def takeWhile_eq_take [symmetric])
  have s2: "s2 = t @ rest"
    using append_take_drop_id [of "length t" s2] t_pre by (simp add: rest_def)
  have a: "cs = r @ p @ t @ rest" using cs s1 s2 by simp
  have b: "\<forall>c \<in> set r. is_name_char c" by (auto simp: r_def dest: set_takeWhileD)
  have c: "p = [] \<or> p = ''()''" by (simp add: p_def P_def group_or_empty_def)
  have d: "t = [] \<or> (\<exists>t'. t = CHR ''#'' # t' \<and> t' \<noteq> [] \<and> (\<forall>c \<in> set t'. is_name_char c))"
    by (cases s2) (auto simp: t_def T_def group_or_empty_def dest: set_takeWhileD)
  have e: "t = [] \<longrightarrow> \<not> starts_token rest"
    by (cases s2)
      (auto simp: t_def T_def group_or_empty_def rest_def starts_token_def match_ref_def Let_def
        split: if_splits)
  have f: "p = [] \<and> t = [] \<longrightarrow> rest = dropWhile is_name_char cs"
    using s1 s2 by (auto simp: s1_def)
  show ?thesis using that [OF a _ m r b c d e f] k by simp
qed


lemma match_end_word:
  assumes "match_ref cs = Some (m, k)"
  shows "last (take k cs) = last (matched_text m)" and "starts_token (drop k cs) \<Longrightarrow> is_word (last (take k cs)) \<Longrightarrow> chained (m, drop k cs)"
proof -
  from assms obtain r p t rest where sh:
    "cs = r @ p @ t @ rest" "k = length (r @ p @ t)"
    "ref m = r" "group_or_empty (parens m) = p" "group_or_empty (trailing m) = t" "r \<noteq> []"
    by (rule match_ref_shape)
  have tk: "take k cs = r @ p @ t" using sh(1,2) by simp
  then show l: "last (take k cs) = last (matched_text m)"
    using sh by (simp add: matched_text_def)
  show "chained (m, drop k cs)" if "starts_token (drop k cs)" "is_word (last (take k cs))"
    using that l by (simp add: chained_def)
qed

lemma re_sub_head:
  assumes "match_ref cs = None"
    and "re_sub h p cs u = Inr (out, u')"
    and "\<forall>mr \<in> set (finditer p cs). \<forall>u t u'. h (fst mr) u = Inr (t, u') \<longrightarrow> good_sub t"
  shows "match_ref out = None"
proof (cases cs)
  case Nil
  then show ?thesis using assms by (simp add: match_ref_None_iff)
next
  case (Cons c cs')
  with assms(1) have nc: "\<not> is_name_char c" by (simp add: match_ref_None_iff)
  show ?thesis
  proof (cases "if c = CHR ''#'' \<and> \<not> p then match_ref cs' else None")
    case None
    with assms(2) Cons obtain o1 where "out = c # o1" by (auto split: sum.splits)
    then show ?thesis using nc by (simp add: match_ref_None_iff)
  next
    case (Some a)
    obtain m k where a: "a = (m, k)" by (cases a)
    from Some a assms(2) Cons obtain t u1 o1 where h: "h m u = Inr (t, u1)" and o: "out = t @ o1"
      by (auto split: sum.splits)
    have "(m, drop k cs') \<in> set (finditer p cs)" using Some a Cons by simp
    then have "good_sub t" using assms(3) h by force
    then show ?thesis using o by (auto simp: match_ref_None_iff good_sub_def)
  qed
qed

lemma re_sub_output_has_no_token:
  assumes "re_sub h p s u = Inr (out, u')"
    and "\<forall>mr \<in> set (finditer p s). \<not> chained mr"
    and "\<forall>mr \<in> set (finditer p s). \<forall>u t u'. h (fst mr) u = Inr (t, u') \<longrightarrow> good_sub t"
    and "q \<longrightarrow> p" and "p \<and> \<not> q \<longrightarrow> \<not> starts_token s"
  shows "finditer q out = []"
  using assms
proof (induction h p s u arbitrary: q out u' rule: re_sub.induct)
  case (1 h prevw u)
  then show ?case by simp
next
  case (2 h p c cs u)
  show ?case
  proof (cases "if c = CHR ''#'' \<and> \<not> p then match_ref cs else None")
    case None
    with "2.prems"(1) obtain o1 where r: "re_sub h (is_word c) cs u = Inr (o1, u')"
      and o: "out = c # o1"
      by (auto split: sum.splits)
    have fi: "finditer p (c # cs) = finditer (is_word c) cs" using None by simp
    have ih: "finditer (is_word c) o1 = []"
      using "2.IH"(1) [OF None r, of "is_word c"] "2.prems"(2,3) fi by simp
    show ?thesis
    proof (cases "c = CHR ''#'' \<and> \<not> q")
      case True
      have "match_ref cs = None"
      proof (cases p)
        case True
        with \<open>c = CHR ''#'' \<and> \<not> q\<close> "2.prems"(5) show ?thesis
          by (cases "match_ref cs") (auto simp: starts_token_def)
      next
        case False
        with None \<open>c = CHR ''#'' \<and> \<not> q\<close> show ?thesis by simp
      qed
      then have "match_ref o1 = None"
        using re_sub_head [OF _ r] "2.prems"(3) fi by simp
      then show ?thesis using o ih True by simp
    next
      case False
      then show ?thesis using o ih by auto
    qed
  next
    case (Some a)
    obtain m k where a: "a = (m, k)" by (cases a)
    from Some have cp: "c = CHR ''#''" "\<not> p" and mr: "match_ref cs = Some (m, k)"
      using a by (auto split: if_splits)
    from Some a "2.prems"(1) obtain t u1 where h: "h m u = Inr (t, u1)"
      by (auto split: sum.splits)
    from Some a h "2.prems"(1) obtain o2
      where r: "re_sub h (is_word (last (take k cs))) (drop k cs) u1 = Inr (o2, u')"
      and o: "out = t @ o2"
      by (auto split: sum.splits)
    have fi: "finditer p (c # cs) = (m, drop k cs) # finditer (is_word (last (take k cs))) (drop k cs)"
      using Some a by simp
    have g: "good_sub t" using "2.prems"(3) h fi by force
    have nch: "\<not> chained (m, drop k cs)" using "2.prems"(2) fi by simp
    have st: "is_word (last (take k cs)) \<longrightarrow> \<not> starts_token (drop k cs)"
      using match_end_word(2) [OF mr] nch by blast
    have ih: "finditer False o2 = []"
      using "2.IH"(2) [OF Some [unfolded a] refl h refl r, of False] "2.prems"(2,3) fi st by simp
    have nq: "\<not> q" using "2.prems"(4) cp by simp
    have "finditer q (t @ o2) = finditer (is_word (last t)) o2"
      using g nq by (intro finditer_embedded) (simp_all add: good_sub_def)
    then show ?thesis using o ih g by (simp add: good_sub_def)
  qed
qed


lemma display_text_no_hash:
  assumes "match_ref cs = Some (m, k)"
  shows "CHR ''#'' \<notin> set (display_text m)"
proof -
  from assms obtain r p t rest where sh:
    "ref m = r" "group_or_empty (parens m) = p" "group_or_empty (trailing m) = t"
    "\<forall>c \<in> set r. is_name_char c" "p = [] \<or> p = ''()''"
    "t = [] \<or> (\<exists>t'. t = CHR ''#'' # t' \<and> t' \<noteq> [] \<and> (\<forall>c \<in> set t'. is_name_char c))"
    by (rule match_ref_shape)
  have r: "CHR ''#'' \<notin> set r" using sh(4) is_name_char_punct(1) by blast
  have p: "CHR ''#'' \<notin> set p" using sh(5) by auto
  have t: "CHR ''#'' \<notin> set (lstrip_hash t)"
  proof
    assume "CHR ''#'' \<in> set (lstrip_hash t)"
    then obtain t' where "t = CHR ''#'' # t'" "\<forall>c \<in> set t'. is_name_char c"
      using sh(6) by (auto simp: lstrip_hash_def)
    moreover from this \<open>CHR ''#'' \<in> set (lstrip_hash t)\<close> have "CHR ''#'' \<in> set t'"
      by (auto simp: lstrip_hash_def dest: set_dropWhileD)
    ultimately show False using is_name_char_punct(1) by blast
  qed
  have "set (display_text m) \<subseteq> set r \<union> set p \<union> set (lstrip_hash t)"
    using sh(1-3)
    by (auto simp: display_text_def split_match_def Let_def dest: in_set_butlastD)
  then show ?thesis using r p t by blast
qed

lemma resolve_shape:
  assumes "resolve dumps self node resolver suite r text = Inr (Some x)"
  shows "x \<noteq> [] \<and> \<not> is_name_char (hd x) \<and> \<not> is_word (last x) \<and> last x \<noteq> CHR ''#''"
  using assms
  by (auto simp: resolve_def is_name_char_def is_word_def split: option.splits sum.splits if_splits)

lemma dot_suffix_cases: "dot_suffix m = [] \<or> dot_suffix m = ''.''"
  by (simp add: dot_suffix_def split: prod.splits)

lemma handler_good:
  assumes "match_ref cs = Some (m, k)"
    and "link_without_token dumps self node resolver suite m"
    and "handler dumps self node resolver suite m u = Inr (t, u')"
  shows "good_sub t"
proof (cases "resolve dumps self node resolver suite (lookup_key m) (display_text m)")
  case (Inl e)
  then show ?thesis using assms(3) by (simp add: handler_eq)
next
  case (Inr res)
  show ?thesis
  proof (cases res)
    case None
    then have t: "t = ''`'' @ display_text m @ ''`'' @ dot_suffix m"
      using Inr assms(3) by (simp add: handler_eq)
    have "CHR ''#'' \<notin> set (display_text m)" using display_text_no_hash [OF assms(1)] .
    then have "CHR ''#'' \<notin> set t" using t dot_suffix_cases [of m] by auto
    then have "finditer False t = []" by (rule finditer_no_hash)
    then show ?thesis using t dot_suffix_cases [of m]
      by (auto simp: good_sub_def is_name_char_def is_word_def)
  next
    case (Some x)
    then have t: "t = x @ dot_suffix m" using Inr assms(3) by (simp add: handler_eq)
    have h: "finditer False x = []"
      using assms(2) Inr Some by (simp add: link_without_token_def)
    have x: "x \<noteq> [] \<and> \<not> is_name_char (hd x) \<and> \<not> is_word (last x) \<and> last x \<noteq> CHR ''#''"
      using resolve_shape Inr Some by blast
    have "finditer False (x @ ''.'') = finditer (is_word (last x)) ''.''"
      using x h by (intro finditer_embedded) simp_all
    then have "finditer False (x @ ''.'') = []" by simp
    then show ?thesis using t h x dot_suffix_cases [of m]
      by (auto simp: good_sub_def is_word_def)
  qed
qed

text \<open>
  C7, as the specification states it, fails. Without resolver, \<^verbatim>\<open>#a#b#c\<close> becomes
  \<^verbatim>\<open>`ab`#c\<close>: in the input the last \<^verbatim>\<open>#\<close> follows the word character \<^verbatim>\<open>b\<close>, in
  the output it follows a backquote, so the pattern matches \<^verbatim>\<open>#c\<close> there and a second
  run rewrites the text again. And a resolver whose address is the anchor \<^verbatim>\<open>#foo\<close> puts
  a token into the output itself.
\<close>

theorem second_run_substitutes_again:
  "preprocess_refs plain_dumps \<lparr>resolver_v2 = None\<rparr> (mod_node ''#a#b#c'')
       (None :: string resolver option) [] []
     = Inr (Some ''`ab`#c'', [(''m'', [''a''])])
   \<and> map fst (finditer False ''`ab`#c'') = [\<lparr>ref = ''c'', parens = None, trailing = None\<rparr>]
   \<and> preprocess_refs plain_dumps \<lparr>resolver_v2 = None\<rparr> (mod_node ''`ab`#c'')
       (None :: string resolver option) [] []
     = Inr (Some ''`ab``c`'', [(''m'', [''c''])])
   \<and> preprocess_refs plain_dumps \<lparr>resolver_v2 = None\<rparr> (mod_node ''#Foo'')
       (Some anchor_resolver) [] []
     = Inr (Some ''[`Foo`](#foo)'', [])
   \<and> preprocess_refs plain_dumps \<lparr>resolver_v2 = None\<rparr> (mod_node ''[`Foo`](#foo)'')
       (Some anchor_resolver) [] []
     = Inr (Some ''[`Foo`](`foo`)'', [(''m'', [''foo''])])"
  by code_simp

text \<open>
  C7, amended: when no token of the docstring that ends in a word character is followed
  at once by \<^verbatim>\<open>#\<close> and a name character, and no link substituted for a resolved token
  contains a match of the pattern, the text a run produces has no match of the pattern,
  and a second run over it, with any resolvers, substitutes nothing: it returns the text
  and the dictionary as they are.
\<close>

theorem second_run_finds_no_token:
  assumes "docstring (snd node) = Some content"
    and "preprocess_refs dumps self node resolver suite u = Inr (Some out, u')"
    and "\<forall>mr \<in> set (finditer False content). \<not> chained mr"
    and "\<forall>mr \<in> set (finditer False content).
           link_without_token dumps self node resolver suite (fst mr)"
  shows "finditer False out = []
         \<and> (\<forall>node'. docstring (snd node') = Some out \<longrightarrow>
               preprocess_refs dumps' self' node' resolver' suite' v = Inr (Some out, v))"
proof -
  from assms(1,2) have r: "re_sub (handler dumps self node resolver suite) False content u = Inr (out, u')"
    by (auto simp: preprocess_refs_def split: sum.splits)
  have g: "\<forall>mr \<in> set (finditer False content). \<forall>u t u'.
             handler dumps self node resolver suite (fst mr) u = Inr (t, u') \<longrightarrow> good_sub t"
  proof (intro ballI allI impI)
    fix mr u t u'
    assume mr: "mr \<in> set (finditer False content)"
      and h: "handler dumps self node resolver suite (fst mr) u = Inr (t, u')"
    obtain m rest where "mr = (m, rest)" by (cases mr)
    with mr obtain cs k where "match_ref cs = Some (fst mr, k)" using finditer_match by fastforce
    then show "good_sub t" using handler_good assms(4) mr h by blast
  qed
  have f: "finditer False out = []"
    by (rule re_sub_output_has_no_token [OF r assms(3) g]) simp_all
  then show ?thesis by (simp add: preprocess_refs_def finditer_Nil_re_sub)
qed


theorem second_run_finds_no_token_witness:
  "preprocess_refs plain_dumps \<lparr>resolver_v2 = None\<rparr> (mod_node ''#a#b, #c() and x#d #Foo.'')
       (Some page_resolver) [] []
     = Inr (Some ''`ab`, `c()` and x#d [`Foo`](page.md#foo).'', [(''m'', [''a'', ''c''])])
   \<and> finditer False ''`ab`, `c()` and x#d [`Foo`](page.md#foo).'' = []
   \<and> preprocess_refs plain_dumps \<lparr>resolver_v2 = None\<rparr>
         (mod_node ''`ab`, `c()` and x#d [`Foo`](page.md#foo).'') (Some page_resolver) [] []
     = Inr (Some ''`ab`, `c()` and x#d [`Foo`](page.md#foo).'', [])"
proof -
  let ?self = "\<lparr>resolver_v2 = None\<rparr> :: string crossref_processor"
  let ?in = "''#a#b, #c() and x#d #Foo.''"
  let ?out = "''`ab`, `c()` and x#d [`Foo`](page.md#foo).''"
  have d: "docstring (snd (mod_node ?in)) = Some ?in" by (simp add: mod_node_def)
  have d': "docstring (snd (mod_node ?out)) = Some ?out" by (simp add: mod_node_def)
  have run: "preprocess_refs plain_dumps ?self (mod_node ?in) (Some page_resolver) [] []
               = Inr (Some ?out, [(''m'', [''a'', ''c''])])"
    by code_simp
  have c1: "\<forall>mr \<in> set (finditer False ?in). \<not> chained mr"
    by code_simp
  have c2: "\<forall>mr \<in> set (finditer False ?in).
              link_without_token plain_dumps ?self (mod_node ?in) (Some page_resolver) [] (fst mr)"
    by code_simp
  note inst = second_run_finds_no_token [OF d run c1 c2, of plain_dumps ?self
      "Some page_resolver" "[]" "[]"]
  show ?thesis using inst run d' by blast
qed


section \<open>Properties of a run\<close>

lemma skeleton_paths:
  "map skeleton a = map skeleton b \<Longrightarrow> map fst (nodes p a) = map fst (nodes p b)"
proof (induction p a arbitrary: b rule: nodes.induct)
  case (1 prefix)
  then show ?case by simp
next
  case (2 prefix n d ms rest)
  from "2.prems" obtain y rest' where b: "b = y # rest'" by (cases b) auto
  obtain n' d' ms' where y: "y = ApiObject n' d' ms'" by (cases y)
  from "2.prems" b y have n: "n' = n" and m: "map skeleton ms = map skeleton ms'"
    and r: "map skeleton rest = map skeleton rest'"
    by auto
  show ?case using "2.IH"(1) [OF m] "2.IH"(2) [OF r] b y n by simp
qed

lemma run_facts:
  obtains calls outcome where
    "process_run dumps self ms resolver = Some (calls, outcome)"
    "map skeleton (tree_after outcome) = map skeleton ms"
    "process_raised outcome = first_raise self resolver calls"
    "\<And>ms' u'. outcome = Inr (ms', u') \<Longrightarrow> map call_scope calls = nodes [] ms"
    "\<And>ms' u'. outcome = Inr (ms', u')
       \<Longrightarrow> map (\<lambda>n. docstring (snd n)) (nodes [] ms') = map (call_doc dumps self resolver) calls"
    "\<And>ms' u' k. outcome = Inr (ms', u') \<Longrightarrow> report u' k = expected_report self resolver calls k"
proof -
  let ?v = "visit (preprocess_node dumps self resolver) (\<lambda>ms. ms) [] ms []"
  obtain r where r: "?v = Some r"
    and sk: "case snd r of
               Inl (e, t) \<Rightarrow> \<exists>objs'. t = objs' \<and> map skeleton objs' = map skeleton ms
             | Inr (objs', u') \<Rightarrow> map skeleton objs' = map skeleton ms"
    using visit_skeleton [of dumps self resolver "\<lambda>ms. ms" "[]" ms "[]"] by blast
  have sc: "case snd r of
              Inl err \<Rightarrow> \<exists>more. nodes [] ms = map call_scope (fst r) @ more
            | Inr res \<Rightarrow> map call_scope (fst r) = nodes [] ms"
    using visit_scopes [of dumps self resolver "\<lambda>ms. ms" "[]" ms "[]"] r by auto
  have dc: "\<forall>objs' u'. snd r = Inr (objs', u') \<longrightarrow>
              map (\<lambda>n. docstring (snd n)) (nodes [] objs')
                = map (call_doc dumps self resolver) (fst r)"
    using visit_docs [of dumps self resolver "\<lambda>ms. ms" "[]" ms "[]"] r by auto
  have st: "\<forall>objs' u'. snd r = Inr (objs', u') \<longrightarrow>
              u' = fold (\<lambda>c. fold (setdefault_append (uid (call_scope c)))
                           (unresolved_keys self resolver (call_suite c) (call_scope c)))
                     (fst r) []"
    using visit_state [of dumps self resolver "\<lambda>ms. ms" "[]" ms "[]"] r by auto
  have rs: "process_raised (snd r) = first_raise self resolver (fst r)"
    using visit_raised [of dumps self resolver "\<lambda>ms. ms" "[]" ms "[]"] r by auto
  have e: "report [] k = []" for k by (simp add: report_def)
  show thesis
  proof (rule that [of "fst r" "snd r"])
    show "process_run dumps self ms resolver = Some (fst r, snd r)"
      using r by (simp add: process_run_def)
    show "map skeleton (tree_after (snd r)) = map skeleton ms"
      using sk by (auto simp: tree_after_def split: sum.splits)
    show "process_raised (snd r) = first_raise self resolver (fst r)" by (rule rs)
    show "map call_scope (fst r) = nodes [] ms" if "snd r = Inr (ms', u')" for ms' u'
      using sc that by simp
    show "map (\<lambda>n. docstring (snd n)) (nodes [] ms') = map (call_doc dumps self resolver) (fst r)"
      if "snd r = Inr (ms', u')" for ms' u'
      using dc that by simp
    show "report u' k = expected_report self resolver (fst r) k"
      if "snd r = Inr (ms', u')" for ms' u' k
      using st that by (simp add: report_fold_calls e)
  qed
qed



text \<open>
  C8: whatever the tree and the resolvers, \<^verbatim>\<open>process\<close> ends, and whether it returns or
  a resolver raises, the tree it leaves differs from the tree it received in the text of
  docstrings only: erasing these texts gives the same tree, with the same names, the same
  members in the same order and the same nodes carrying a docstring; the paths of the
  nodes are the same.
\<close>

theorem process_changes_docstrings_only:
  "\<exists>res. process dumps self ms resolver = Some res
         \<and> map skeleton (tree_after res) = map skeleton ms
         \<and> map fst (nodes [] (tree_after res)) = map fst (nodes [] ms)"
proof -
  obtain calls outcome where r: "process_run dumps self ms resolver = Some (calls, outcome)"
    and s: "map skeleton (tree_after outcome) = map skeleton ms"
    by (rule run_facts)
  have t: "tree_after (after_visit outcome) = tree_after outcome"
    by (auto simp: tree_after_def after_visit_def split: sum.splits)
  show ?thesis
    using r s t skeleton_paths [of "tree_after outcome" ms "[]"] by (simp add: process_def)
qed


text \<open>
  C10: for every node, with whatever suite, \<^verbatim>\<open>_preprocess_refs\<close> appends to the entry
  of the node's dot-joined path exactly the names it looked up for the tokens that no
  resolver found, one entry per occurrence and from left to right, and leaves the other
  entries as they are. After a run that returned, the entry of every key \<open>k\<close> holds these
  names for the calls of the run in order, each asked with the suite of its call; the
  calls are the nodes of the tree in depth-first order. The name of every token is the
  \<^verbatim>\<open>ref\<close> group, less the dot taken off its end when one was, and has no \<^verbatim>\<open>#\<close>,
  \<^verbatim>\<open>(\<close> or \<^verbatim>\<open>)\<close>.
\<close>

theorem report_holds_lookup_keys_in_order:
  assumes "process_run dumps self ms resolver = Some (calls, Inr (ms', u))"
  shows "(\<forall>suite node v d v'.
            preprocess_refs dumps self node resolver suite v = Inr (d, v') \<longrightarrow>
            report v' (uid node) = report v (uid node) @ unresolved_keys self resolver suite node
            \<and> (\<forall>k. k \<noteq> uid node \<longrightarrow> report v' k = report v k))
         \<and> report u k = expected_report self resolver calls k
         \<and> map call_scope calls = nodes [] ms
         \<and> (\<forall>node \<in> set (nodes [] ms). \<forall>m \<in> set (node_tokens node). plain_key m)"
proof -
  have a: "report v' (uid node) = report v (uid node) @ unresolved_keys self resolver suite node
           \<and> (\<forall>k. k \<noteq> uid node \<longrightarrow> report v' k = report v k)"
    if "preprocess_refs dumps self node resolver suite v = Inr (d, v')" for suite node v d v'
    using preprocess_refs_state [OF that] by (simp add: report_fold_setdefault_append)
  obtain calls' outcome where r: "process_run dumps self ms resolver = Some (calls', outcome)"
    and sc: "\<And>ms' u'. outcome = Inr (ms', u') \<Longrightarrow> map call_scope calls' = nodes [] ms"
    and rp: "\<And>ms' u' k. outcome = Inr (ms', u')
               \<Longrightarrow> report u' k = expected_report self resolver calls' k"
    by (rule run_facts [of dumps self ms resolver]) blast
  from r assms have eq: "calls' = calls" "outcome = Inr (ms', u)" by simp_all
  show ?thesis using a sc [OF eq(2)] rp [OF eq(2)] eq(1) token_plain_key by blast
qed

lemma live_run:
  "process_run plain_dumps \<lparr>resolver_v2 = Some live_v2\<rparr> live_tree None
     = Some (live_calls, Inr (live_after, [(''m'', [''b'', ''a'', ''b''])]))"
  by code_simp

theorem report_holds_lookup_keys_in_order_witness:
  "process_run plain_dumps \<lparr>resolver_v2 = Some live_v2\<rparr> live_tree None
     = Some (live_calls, Inr (live_after, [(''m'', [''b'', ''a'', ''b''])]))
   \<and> expected_report \<lparr>resolver_v2 = Some live_v2\<rparr> None live_calls ''m'' = [''b'', ''a'', ''b'']
   \<and> expected_report \<lparr>resolver_v2 = Some live_v2\<rparr> None live_calls ''m.f'' = []
   \<and> map call_scope live_calls = nodes [] live_tree
   \<and> preprocess_refs plain_dumps \<lparr>resolver_v2 = Some live_v2\<rparr> (mod_node ''#Foo and #a'') None
         [] [(''m'', [''b''])]
     = Inr (Some ''`Foo` and `a`'', [(''m'', [''b'', ''Foo'', ''a''])])
   \<and> report [(''m'', [''b''])] ''m''
         @ unresolved_keys \<lparr>resolver_v2 = Some live_v2\<rparr> None [] (mod_node ''#Foo and #a'')
     = [''b'', ''Foo'', ''a'']
   \<and> plain_key \<lparr>ref = ''b.'', parens = None, trailing = None\<rparr>"
proof -
  let ?self = "\<lparr>resolver_v2 = Some live_v2\<rparr>"
  note run = live_run
  note th = report_holds_lookup_keys_in_order [OF run]
  have n: "([''m''], ApiObject ''m'' (Some ''#b() and #a#x. then #b.'')
                       [ApiObject ''f'' (Some ''#Foo #c'') []])
            \<in> set (nodes [] live_tree)"
    by code_simp
  have t: "\<lparr>ref = ''b.'', parens = None, trailing = None\<rparr>
            \<in> set (node_tokens ([''m''], ApiObject ''m'' (Some ''#b() and #a#x. then #b.'')
                                          [ApiObject ''f'' (Some ''#Foo #c'') []]))"
    by code_simp
  have a: "expected_report ?self None live_calls ''m'' = [''b'', ''a'', ''b'']"
    using th [of "''m''"] by (simp add: report_def)
  have b: "expected_report ?self None live_calls ''m.f'' = []"
    using th [of "''m.f''"] by (simp add: report_def)
  have c: "map call_scope live_calls = nodes [] live_tree"
    using th [of "''m''"] by blast
  have d: "plain_key \<lparr>ref = ''b.'', parens = None, trailing = None\<rparr>"
    using th [of "''m''"] n t by blast
  have p: "preprocess_refs plain_dumps ?self (mod_node ''#Foo and #a'') None [] [(''m'', [''b''])]
           = Inr (Some ''`Foo` and `a`'', [(''m'', [''b'', ''Foo'', ''a''])])"
    by code_simp
  have u: "uid (mod_node ''#Foo and #a'') = ''m''" by code_simp
  have "report [(''m'', [''b'', ''Foo'', ''a''])] (uid (mod_node ''#Foo and #a''))
          = report [(''m'', [''b''])] (uid (mod_node ''#Foo and #a''))
              @ unresolved_keys ?self None [] (mod_node ''#Foo and #a'')"
    using th [of "''m''"] p by blast
  then have e: "report [(''m'', [''b''])] ''m''
                  @ unresolved_keys ?self None [] (mod_node ''#Foo and #a'')
                = [''b'', ''Foo'', ''a'']"
    using u by (simp add: report_def)
  show ?thesis using run a b c d p e by simp
qed


text \<open>
  C9: a token that no configured resolver finds does not end the run: the handler
  returns the inline-code fallback and records the name. A resolver that raises on a token
  makes the handler raise the same exception, and nothing on the way to the caller
  catches it: \<^verbatim>\<open>process\<close> ends, and it raises exactly the first exception that a
  resolver raises among the questions of the calls of the run, each asked with the suite
  of its call; it returns exactly when none raises. A run that returns has called every
  node of the tree, in depth-first order; the docstring it leaves on each node is the
  result of \<^verbatim>\<open>re.sub\<close> with the handler of that node's call, and the entry of every
  key of the dictionary holds the names that were not found.
\<close>

theorem absent_goes_on_and_exception_propagates:
  "(not_found self node resolver suite (lookup_key m) \<longrightarrow>
      handler dumps self node resolver suite m u
        = Inr (''`'' @ display_text m @ ''`'' @ dot_suffix m,
               setdefault_append (uid node) (lookup_key m) u))
   \<and> (raises self resolver suite (node, lookup_key m) = Some e \<longrightarrow>
        handler dumps self node resolver suite m u = Inl e)
   \<and> (\<exists>calls outcome.
         process_run dumps self ms resolver = Some (calls, outcome)
         \<and> process dumps self ms resolver = Some (after_visit outcome)
         \<and> process_raised outcome = first_raise self resolver calls
         \<and> (\<forall>ms' u'. outcome = Inr (ms', u') \<longrightarrow>
               map call_scope calls = nodes [] ms
               \<and> map (\<lambda>n. docstring (snd n)) (nodes [] ms')
                   = map (call_doc dumps self resolver) calls
               \<and> (\<forall>k. report u' k = expected_report self resolver calls k)))"
proof -
  have a: "not_found self node resolver suite (lookup_key m) \<Longrightarrow>
      handler dumps self node resolver suite m u
        = Inr (''`'' @ display_text m @ ''`'' @ dot_suffix m,
               setdefault_append (uid node) (lookup_key m) u)"
    by (simp add: handler_eq not_found_resolve)
  have b: "raises self resolver suite (node, lookup_key m) = Some e \<Longrightarrow>
        handler dumps self node resolver suite m u = Inl e"
    using handler_raised [of dumps self node resolver suite m u]
    by (auto simp: raised_exn_def split: sum.splits)
  obtain calls outcome where r: "process_run dumps self ms resolver = Some (calls, outcome)"
    and rs: "process_raised outcome = first_raise self resolver calls"
    and sc: "\<And>ms' u'. outcome = Inr (ms', u') \<Longrightarrow> map call_scope calls = nodes [] ms"
    and dc: "\<And>ms' u'. outcome = Inr (ms', u')
               \<Longrightarrow> map (\<lambda>n. docstring (snd n)) (nodes [] ms')
                     = map (call_doc dumps self resolver) calls"
    and rp: "\<And>ms' u' k. outcome = Inr (ms', u')
               \<Longrightarrow> report u' k = expected_report self resolver calls k"
    by (rule run_facts [of dumps self ms resolver]) blast
  have p: "process dumps self ms resolver = Some (after_visit outcome)"
    using r by (simp add: process_def)
  have c: "\<exists>calls outcome.
         process_run dumps self ms resolver = Some (calls, outcome)
         \<and> process dumps self ms resolver = Some (after_visit outcome)
         \<and> process_raised outcome = first_raise self resolver calls
         \<and> (\<forall>ms' u'. outcome = Inr (ms', u') \<longrightarrow>
               map call_scope calls = nodes [] ms
               \<and> map (\<lambda>n. docstring (snd n)) (nodes [] ms')
                   = map (call_doc dumps self resolver) calls
               \<and> (\<forall>k. report u' k = expected_report self resolver calls k))"
    using r p rs sc dc rp by blast
  show ?thesis using a b c by blast
qed

lemma boom_run:
  "process_run plain_dumps \<lparr>resolver_v2 = None\<rparr> boom_tree (Some failing_resolver)
     = Some (boom_calls, Inl (''lookup failed'', boom_after))"
  by code_simp

theorem absent_goes_on_and_exception_propagates_witness:
  "handler plain_dumps \<lparr>resolver_v2 = None\<rparr> (mod_node ''#Foo #Boom'') (Some failing_resolver) []
       \<lparr>ref = ''Foo'', parens = None, trailing = None\<rparr> []
     = Inr (''`Foo`'', [(''m'', [''Foo''])])
   \<and> handler plain_dumps \<lparr>resolver_v2 = None\<rparr> (mod_node ''#Foo #Boom'') (Some failing_resolver) []
       \<lparr>ref = ''Boom'', parens = None, trailing = None\<rparr> []
     = Inl ''lookup failed''
   \<and> process plain_dumps \<lparr>resolver_v2 = None\<rparr> boom_tree (Some failing_resolver)
     = Some (Inl (''lookup failed'', boom_after))
   \<and> first_raise \<lparr>resolver_v2 = None\<rparr> (Some failing_resolver) boom_calls = Some ''lookup failed''
   \<and> process plain_dumps \<lparr>resolver_v2 = Some live_v2\<rparr> live_tree None
     = Some (Inr (live_after, [(''m'', [''b'', ''a'', ''b''])],
                  Some (3, ''  m: b, a, b'')))
   \<and> first_raise \<lparr>resolver_v2 = Some live_v2\<rparr> None live_calls = None
   \<and> map (call_doc plain_dumps \<lparr>resolver_v2 = Some live_v2\<rparr> None) live_calls
     = [Some ''`b()` and `ax`. then `b`.'',
        Some (''{@link pydoc:pkg.Foo :with '' @ plain_dumps ''Foo'' @ ''} ''
                @ ''{@link pydoc:pkg.c :with '' @ plain_dumps ''c'' @ ''}'')]"
proof -
  let ?self = "\<lparr>resolver_v2 = None\<rparr> :: string crossref_processor"
  let ?live = "\<lparr>resolver_v2 = Some live_v2\<rparr>"
  let ?foo = "\<lparr>ref = ''Foo'', parens = None, trailing = None\<rparr>"
  let ?boom = "\<lparr>ref = ''Boom'', parens = None, trailing = None\<rparr>"
  have nf: "not_found ?self (mod_node ''#Foo #Boom'') (Some failing_resolver) [] (lookup_key ?foo)"
    by code_simp
  have rs: "raises ?self (Some failing_resolver) [] (mod_node ''#Foo #Boom'', lookup_key ?boom)
              = Some ''lookup failed''"
    by code_simp
  note th1 = absent_goes_on_and_exception_propagates [of ?self "mod_node ''#Foo #Boom''"
      "Some failing_resolver" "[]" ?foo plain_dumps "[]" "''lookup failed''" boom_tree]
  note th2 = absent_goes_on_and_exception_propagates [of ?self "mod_node ''#Foo #Boom''"
      "Some failing_resolver" "[]" ?boom plain_dumps "[]" "''lookup failed''" boom_tree]
  note th3 = absent_goes_on_and_exception_propagates [of ?live "mod_node ''#Foo #Boom''"
      None "[]" ?foo plain_dumps "[]" "''lookup failed''" live_tree]
  have a: "handler plain_dumps ?self (mod_node ''#Foo #Boom'') (Some failing_resolver) [] ?foo []
             = Inr (''`Foo`'', [(''m'', [''Foo''])])"
    using th1 nf
    by (simp add: lookup_key_def display_text_def dot_suffix_def uid_def mod_node_def
        grammar_eval)
  have b: "handler plain_dumps ?self (mod_node ''#Foo #Boom'') (Some failing_resolver) [] ?boom []
             = Inl ''lookup failed''"
    using th2 rs by simp
  from th1 obtain calls outcome
    where r: "process_run plain_dumps ?self boom_tree (Some failing_resolver) = Some (calls, outcome)"
      and p: "process plain_dumps ?self boom_tree (Some failing_resolver) = Some (after_visit outcome)"
      and e: "process_raised outcome = first_raise ?self (Some failing_resolver) calls"
    by blast
  from r have eq: "calls = boom_calls" "outcome = Inl (''lookup failed'', boom_after)"
    by (simp_all add: boom_run)
  have c: "process plain_dumps ?self boom_tree (Some failing_resolver)
             = Some (Inl (''lookup failed'', boom_after))"
    using p eq by (simp add: after_visit_def)
  have d: "first_raise ?self (Some failing_resolver) boom_calls = Some ''lookup failed''"
    using e eq by (simp add: process_raised_def raised_exn_def)
  from th3 obtain calls' outcome'
    where r': "process_run plain_dumps ?live live_tree None = Some (calls', outcome')"
      and p': "process plain_dumps ?live live_tree None = Some (after_visit outcome')"
      and e': "process_raised outcome' = first_raise ?live None calls'"
      and g': "\<forall>ms' u'. outcome' = Inr (ms', u') \<longrightarrow>
                 map call_scope calls' = nodes [] live_tree
                 \<and> map (\<lambda>n. docstring (snd n)) (nodes [] ms')
                     = map (call_doc plain_dumps ?live None) calls'
                 \<and> (\<forall>k. report u' k = expected_report ?live None calls' k)"
    by blast
  from r' have eq': "calls' = live_calls"
      "outcome' = Inr (live_after, [(''m'', [''b'', ''a'', ''b''])])"
    by (simp_all add: live_run)
  have w: "after_visit (Inr (live_after, [(''m'', [''b'', ''a'', ''b''])]) :: string \<times> api_suite + _)
             = Inr (live_after, [(''m'', [''b'', ''a'', ''b''])], Some (3, ''  m: b, a, b''))"
    by code_simp
  have c': "process plain_dumps ?live live_tree None
              = Some (Inr (live_after, [(''m'', [''b'', ''a'', ''b''])],
                           Some (3, ''  m: b, a, b'')))"
    using p' eq' w by simp
  have d': "first_raise ?live None live_calls = None"
    using e' eq' by (simp add: process_raised_def raised_exn_def)
  have "map (\<lambda>n. docstring (snd n)) (nodes [] live_after)
          = map (call_doc plain_dumps ?live None) live_calls"
    using g' eq' by blast
  moreover have "map (\<lambda>n. docstring (snd n)) (nodes [] live_after)
          = [Some ''`b()` and `ax`. then `b`.'',
             Some (''{@link pydoc:pkg.Foo :with '' @ plain_dumps ''Foo'' @ ''} ''
                     @ ''{@link pydoc:pkg.c :with '' @ plain_dumps ''c'' @ ''}'')]"
    by code_simp
  ultimately have f': "map (call_doc plain_dumps ?live None) live_calls
          = [Some ''`b()` and `ax`. then `b`.'',
             Some (''{@link pydoc:pkg.Foo :with '' @ plain_dumps ''Foo'' @ ''} ''
                     @ ''{@link pydoc:pkg.c :with '' @ plain_dumps ''c'' @ ''}'')]"
    by simp
  show ?thesis using a b c d c' d' f' by simp
qed

end
